theory Spec2Isabelle
  imports Complex_Main
begin

section \<open>Strings\<close>

text \<open>
  Strings are lists of 8-bit characters.  \<open>toUpperCase\<close> maps the letters \<open>a\<close> to \<open>z\<close> to
  \<open>A\<close> to \<open>Z\<close> and leaves every other character alone, which is what the JavaScript method
  does on ASCII text.  \<open>substring\<close> is JavaScript's \<open>String.prototype.substring\<close> on integer
  arguments: both indices are clamped to \<open>[0, length]\<close> and swapped when out of order.
\<close>

definition toUpperChar :: "char \<Rightarrow> char" where
  "toUpperChar c =
     (case map_of (zip ''abcdefghijklmnopqrstuvwxyz'' ''ABCDEFGHIJKLMNOPQRSTUVWXYZ'') c of
        Some u \<Rightarrow> u
      | None \<Rightarrow> c)"

definition toUpperCase :: "string \<Rightarrow> string" where
  "toUpperCase s = map toUpperChar s"

definition clamp_index :: "string \<Rightarrow> int \<Rightarrow> nat" where
  "clamp_index s i = (if i < 0 then 0 else min (nat i) (length s))"

definition substring :: "string \<Rightarrow> int \<Rightarrow> int \<Rightarrow> string" where
  "substring s a b =
     (let from = min (clamp_index s a) (clamp_index s b);
          to = max (clamp_index s a) (clamp_index s b)
      in take (to - from) (drop from s))"

text \<open>The test \<open>/^[ACGT]+$/.test(s)\<close>: one or more symbols, each of them a base.\<close>

definition test_ACGT_plus :: "string \<Rightarrow> bool" where
  "test_ACGT_plus s = (s \<noteq> [] \<and> list_all (\<lambda>c. c \<in> set ''ACGT'') s)"

section \<open>Codon encoder\<close>

text \<open>
  Every \<open>throw new ValueError(...)\<close> of the two services is a constructor here, one per
  message template, carrying what the message interpolates.  \<open>UndefinedEntry\<close> stands for a
  lookup in \<open>CODON2INT\<close> that finds no key (JavaScript's \<open>undefined\<close>); it is shown below
  never to happen.
\<close>

datatype ValueError =
    InvalidCodon string
  | InputTooSmall
  | NotSemiprime int
  | UndefinedEntry string

definition BASE4 :: "(char \<times> int) list" where
  "BASE4 = [(CHR ''A'', 0), (CHR ''C'', 1), (CHR ''G'', 2), (CHR ''T'', 3)]"

text \<open>The table filled by the three nested loops over \<open>"ACGT"\<close> when the module is loaded.\<close>

definition CODON2INT :: "(string \<times> int) list" where
  "CODON2INT =
     concat (map (\<lambda>(a, va).
       concat (map (\<lambda>(b, vb).
         map (\<lambda>(c, vc). ([a, b, c], va * 16 + vb * 4 + vc)) BASE4) BASE4)) BASE4)"

definition codonToInt :: "string \<Rightarrow> ValueError + int" where
  "codonToInt codon0 =
     (let codon = toUpperCase codon0 in
      if length codon \<noteq> 3 \<or> \<not> test_ACGT_plus codon then Inl (InvalidCodon codon)
      else (case map_of CODON2INT codon of
              Some v \<Rightarrow> Inr v
            | None \<Rightarrow> Inl (UndefinedEntry codon)))"

section \<open>Prime factorization service\<close>

text \<open>
  JavaScript numbers are modelled as unbounded integers.  Where \<open>%\<close> and \<open>/\<close> are applied
  the operands are positive (\<open>num > 3\<close>, \<open>n > 1\<close>, loop counters from 5 and from 2), so
  \<open>%\<close> is \<open>mod\<close> and the exact quotient \<open>n / i\<close> is \<open>n div i\<close>.  Both loops are total: the
  counter grows while its square stays below the bound, which the termination proofs
  take from \<open>i \<le> i * i\<close>.
\<close>

lemma int_le_square: "(i::int) \<le> i * i"
proof (cases "i \<le> 0")
  case True
  have "0 \<le> i * i" by simp
  with True show ?thesis by linarith
next
  case False
  then have "i * 1 \<le> i * i" by (intro mult_left_mono) auto
  then show ?thesis by simp
qed

function isPrime_loop :: "int \<Rightarrow> int \<Rightarrow> bool" where
  "isPrime_loop i num =
     (if i * i \<le> num
      then (if num mod i = 0 \<or> num mod (i + 2) = 0 then False
            else isPrime_loop (i + 6) num)
      else True)"
  by pat_completeness auto
termination
proof (relation "measure (\<lambda>(i, num). nat (num + 1 - i))", goal_cases)
  case 1
  show ?case by simp
next
  case (2 i num)
  with int_le_square [of i] show ?case by simp
qed

declare isPrime_loop.simps [simp del]

definition isPrime :: "int \<Rightarrow> bool" where
  "isPrime num =
     (if num \<le> 1 then False
      else if num \<le> 3 then True
      else if num mod 2 = 0 \<or> num mod 3 = 0 then False
      else isPrime_loop 5 num)"

function semiprime_loop :: "int \<Rightarrow> int \<Rightarrow> ValueError + int \<times> int" where
  "semiprime_loop i n =
     (if i * i \<le> n
      then (if n mod i = 0
            then (let p = i; q = n div i in
                  if isPrime p \<and> isPrime q then Inr (p, q)
                  else semiprime_loop (i + 1) n)
            else semiprime_loop (i + 1) n)
      else Inl (NotSemiprime n))"
  by pat_completeness auto
termination
proof (relation "measure (\<lambda>(i, n). nat (n + 1 - i))", goal_cases)
  case 1
  show ?case by simp
next
  case (2 i n)
  with int_le_square [of i] show ?case by simp
next
  case (3 i n)
  with int_le_square [of i] show ?case by simp
qed

declare semiprime_loop.simps [simp del]

definition semiprimeFactors :: "int \<Rightarrow> ValueError + int \<times> int" where
  "semiprimeFactors n = (if n \<le> 1 then Inl InputTooSmall else semiprime_loop 2 n)"

section \<open>Fingerprint and window scorer\<close>

text \<open>
  JavaScript numbers that carry scores.  A \<open>number\<close> is a finite value, one of the two
  infinities, or \<open>NaN\<close>.  An arithmetic operation on finite values gives its exact result
  when that lies below the overflow threshold of a double in magnitude, and an infinity
  from the threshold on (\<open>overflow\<close>); on infinities and \<open>NaN\<close> it follows IEEE 754.
  Rounding of finite results to 53 bits is not modelled, and neither is the sign of a zero
  (division by zero takes the zero as positive).  \<open>Math.log\<close> is \<open>ln\<close> on positive values;
  it does not throw, so the \<open>catch\<close> branch of \<open>fingerprint\<close> is dead code and has no
  counterpart here.
\<close>

datatype number = Finite real | PosInfinity | NegInfinity | NaN

definition overflow_threshold :: real where
  "overflow_threshold = 2 ^ 1024 - 2 ^ 970"

definition overflow :: "real \<Rightarrow> number" where
  "overflow x =
     (if overflow_threshold \<le> x then PosInfinity
      else if x \<le> - overflow_threshold then NegInfinity
      else Finite x)"

fun is_negative :: "number \<Rightarrow> bool" where
  "is_negative (Finite x) = (x < 0)"
| "is_negative NegInfinity = True"
| "is_negative PosInfinity = False"
| "is_negative NaN = False"

fun number_add :: "number \<Rightarrow> number \<Rightarrow> number" where
  "number_add NaN b = NaN"
| "number_add a NaN = NaN"
| "number_add (Finite x) (Finite y) = overflow (x + y)"
| "number_add PosInfinity NegInfinity = NaN"
| "number_add NegInfinity PosInfinity = NaN"
| "number_add PosInfinity b = PosInfinity"
| "number_add a PosInfinity = PosInfinity"
| "number_add NegInfinity b = NegInfinity"
| "number_add a NegInfinity = NegInfinity"

fun number_sub :: "number \<Rightarrow> number \<Rightarrow> number" where
  "number_sub NaN b = NaN"
| "number_sub a NaN = NaN"
| "number_sub (Finite x) (Finite y) = overflow (x - y)"
| "number_sub PosInfinity PosInfinity = NaN"
| "number_sub NegInfinity NegInfinity = NaN"
| "number_sub PosInfinity b = PosInfinity"
| "number_sub a PosInfinity = NegInfinity"
| "number_sub NegInfinity b = NegInfinity"
| "number_sub a NegInfinity = PosInfinity"

fun number_mul :: "number \<Rightarrow> number \<Rightarrow> number" where
  "number_mul NaN b = NaN"
| "number_mul a NaN = NaN"
| "number_mul (Finite x) (Finite y) = overflow (x * y)"
| "number_mul a b =
     (if a = Finite 0 \<or> b = Finite 0 then NaN
      else if is_negative a = is_negative b then PosInfinity else NegInfinity)"

fun number_div :: "number \<Rightarrow> number \<Rightarrow> number" where
  "number_div NaN b = NaN"
| "number_div a NaN = NaN"
| "number_div (Finite x) (Finite y) =
     (if y = 0 then (if x = 0 then NaN else if 0 < x then PosInfinity else NegInfinity)
      else overflow (x / y))"
| "number_div (Finite x) b = Finite 0"
| "number_div a (Finite y) = (if is_negative a = (y < 0) then PosInfinity else NegInfinity)"
| "number_div a b = NaN"

text \<open>\<open>a ** 2\<close>, \<open>Math.abs\<close>, \<open>Math.log\<close> and the comparison \<open>a <= b\<close>.\<close>

fun number_square :: "number \<Rightarrow> number" where
  "number_square (Finite x) = overflow (x ^ 2)"
| "number_square NaN = NaN"
| "number_square a = PosInfinity"

fun Math_abs :: "number \<Rightarrow> number" where
  "Math_abs (Finite x) = Finite \<bar>x\<bar>"
| "Math_abs NaN = NaN"
| "Math_abs a = PosInfinity"

fun Math_log :: "number \<Rightarrow> number" where
  "Math_log (Finite x) = (if x < 0 then NaN else if x = 0 then NegInfinity else Finite (ln x))"
| "Math_log PosInfinity = PosInfinity"
| "Math_log a = NaN"

fun number_le :: "number \<Rightarrow> number \<Rightarrow> bool" where
  "number_le NaN b = False"
| "number_le a NaN = False"
| "number_le (Finite x) (Finite y) = (x \<le> y)"
| "number_le NegInfinity b = True"
| "number_le a PosInfinity = True"
| "number_le a b = False"

definition fingerprint :: "number \<Rightarrow> number \<Rightarrow> number" where
  "fingerprint p q =
     (let a = number_div (number_add p q) (Finite 2);
          m = number_mul p q;
          delta = Math_abs (number_sub p q)
      in if m = Finite 0 \<or> number_le a (Finite 1) then Finite 0
         else number_div (number_square delta) (number_mul m (Math_log a)))"

text \<open>
  Regular expressions.  Both call sites build the pattern text from the upper-cased PAM
  pattern by replacing \<open>N\<close> with \<open>[ACGT]\<close> and hand it to \<open>new RegExp\<close>.  The model parses
  the fragment these texts fall into: a sequence of literal characters and of the class
  \<open>[ACGT]\<close>.  A text with any other regular-expression metacharacter is outside the
  fragment (\<open>parse_regex\<close> gives \<open>None\<close>), and a function handed such a pattern ends as
  \<open>PatternNotModelled\<close>.  \<open>replace_first\<close> is \<open>String.replace\<close> with a string pattern, which
  replaces the first occurrence only; \<open>replace_all\<close> is the same with the pattern \<open>/N/g\<close>.
  \<open>match_here\<close> matches the items against a prefix of a string, and \<open>test_anchored\<close> is
  \<open>test\<close> on a pattern wrapped in \<open>^\<close> and \<open>$\<close>.
\<close>

datatype rx_item = Lit char | Bases

definition metachars :: string where
  "metachars = [CHR 0x5C, CHR ''^'', CHR ''$'', CHR ''.'', CHR ''|'', CHR ''?'', CHR ''*'',
     CHR ''+'', CHR ''('', CHR '')'', CHR ''['', CHR '']'', CHR ''{'', CHR ''}'']"

fun parse_regex :: "string \<Rightarrow> rx_item list option" where
  "parse_regex [] = Some []"
| "parse_regex (c # cs) =
     (if c = CHR ''['' \<and> take 5 cs = ''ACGT]''
      then map_option (\<lambda>r. Bases # r) (parse_regex (drop 5 cs))
      else if c \<in> set metachars then None
      else map_option (\<lambda>r. Lit c # r) (parse_regex cs))"

fun replace_first :: "char \<Rightarrow> string \<Rightarrow> string \<Rightarrow> string" where
  "replace_first x r [] = []"
| "replace_first x r (c # cs) = (if c = x then r @ cs else c # replace_first x r cs)"

definition replace_all :: "char \<Rightarrow> string \<Rightarrow> string \<Rightarrow> string" where
  "replace_all x r s = concat (map (\<lambda>c. if c = x then r else [c]) s)"

definition item_matches :: "rx_item \<Rightarrow> char \<Rightarrow> bool" where
  "item_matches it c = (case it of Lit l \<Rightarrow> c = l | Bases \<Rightarrow> c \<in> set ''ACGT'')"

fun match_here :: "rx_item list \<Rightarrow> string \<Rightarrow> bool" where
  "match_here [] s = True"
| "match_here (it # r) [] = False"
| "match_here (it # r) (c # s) = (item_matches it c \<and> match_here r s)"

definition test_anchored :: "rx_item list \<Rightarrow> string \<Rightarrow> bool" where
  "test_anchored rx s = (length s = length rx \<and> match_here rx s)"

text \<open>
  The body of the \<open>try\<close> block of the window loop: \<open>Inr\<close> carries the running total after
  the window, \<open>Inl\<close> the \<open>ValueError\<close> thrown by \<open>codonToInt\<close> or \<open>semiprimeFactors\<close>; the
  loop's \<open>catch\<close> turns the latter into \<open>continue\<close>.  The loop is a partial function: with
  a step below 1 the counter never passes the bound, the loop does not return, and the
  value is \<open>None\<close>.
\<close>

definition window_try :: "string \<Rightarrow> int \<Rightarrow> number \<Rightarrow> ValueError + number" where
  "window_try protospacer i totalLambda =
     (let codon1Str = substring protospacer i (i + 3);
          codon2Str = substring protospacer (i + 3) (i + 6)
      in if length codon1Str \<noteq> 3 \<or> length codon2Str \<noteq> 3 then Inr totalLambda
         else (case codonToInt codon1Str of
                 Inl e \<Rightarrow> Inl e
               | Inr c1 \<Rightarrow>
                   (case codonToInt codon2Str of
                      Inl e \<Rightarrow> Inl e
                    | Inr c2 \<Rightarrow>
                        (let N = c1 * 64 + c2 in
                         case semiprimeFactors N of
                           Inl e \<Rightarrow> Inl e
                         | Inr (p, q) \<Rightarrow>
                             Inr (number_add totalLambda
                                    (fingerprint (Finite (real_of_int p)) (Finite (real_of_int q))))))))"

partial_function (option) window_loop ::
  "string \<Rightarrow> int \<Rightarrow> int \<Rightarrow> number \<Rightarrow> number option" where
  "window_loop protospacer step i totalLambda =
     (if i \<le> int (length protospacer) - 6
      then (case window_try protospacer i totalLambda of
              Inl e \<Rightarrow> window_loop protospacer step (i + step) totalLambda
            | Inr t \<Rightarrow> window_loop protospacer step (i + step) t)
      else Some totalLambda)"

text \<open>
  How a call ends: it returns, or its pattern is outside the modelled fragment of regular
  expressions, or it does not return.  No exception leaves \<open>analyzeSequenceForScore\<close>
  otherwise: the two throwing calls sit inside the \<open>try\<close> block.
\<close>

datatype 'a completion = Returns 'a | PatternNotModelled | Diverges

definition scorer_pamRegex :: "string \<Rightarrow> rx_item list option" where
  "scorer_pamRegex pam = parse_regex (replace_first (CHR ''N'') ''[ACGT]'' (toUpperCase pam))"

definition analyzeSequenceForScore :: "string \<Rightarrow> int \<Rightarrow> string \<Rightarrow> number completion" where
  "analyzeSequenceForScore seq step pam =
     (if length seq < 23 then Returns (Finite 0)
      else (case scorer_pamRegex pam of
              None \<Rightarrow> PatternNotModelled
            | Some pamRegex \<Rightarrow>
                (let totalLambda = Finite 0;
                     protospacer = toUpperCase (substring seq 0 20);
                     pamSeqFromInput = toUpperCase (substring seq 20 23)
                 in if \<not> (length pamSeqFromInput = 3 \<and> test_anchored pamRegex pamSeqFromInput)
                    then Returns (Finite 0)
                    else if \<not> test_ACGT_plus protospacer then Returns (Finite 0)
                    else (case window_loop protospacer step 0 totalLambda of
                            None \<Rightarrow> Diverges
                          | Some t \<Rightarrow> Returns t))))"

text \<open>
  The condition of the scorer's second \<open>if\<close>, on its own: \<open>scorer_recheck\<close> on the
  upper-cased symbols 21 to 23, \<open>scorer_accepts\<close> on the whole input.
\<close>

definition scorer_recheck :: "string \<Rightarrow> string \<Rightarrow> bool" where
  "scorer_recheck pam pamSeqFromInput =
     (case scorer_pamRegex pam of
        None \<Rightarrow> False
      | Some pamRegex \<Rightarrow> length pamSeqFromInput = 3 \<and> test_anchored pamRegex pamSeqFromInput)"

definition scorer_accepts :: "string \<Rightarrow> string \<Rightarrow> bool" where
  "scorer_accepts pam seq = scorer_recheck pam (toUpperCase (substring seq 20 23))"

section \<open>Motif scanner\<close>

text \<open>
  \<open>discoverGrnasFromFasta\<close> of the App component.  The repository holds two copies of the
  component.  \<open>discoverGrnasFromFasta\<close> is the copy that checks the alphabet of the sequence
  before scanning; \<open>discoverGrnasFromFasta_older\<close> is the older copy, which has the same scan
  loop without that check.

  The callback reads the parsed FASTA content and the PAM pattern and writes the React
  state through its setters; the model passes the state in and returns it updated.  The
  two messages handed to \<open>setError\<close> are the constructors of \<open>ui_error\<close>, carrying what the
  message interpolates.  Logging and timing are left out.
\<close>

record FastaSequence =
  header :: string
  sequence :: string

record CsvRow =
  protospacer :: string
  PAM :: string
  sequence_location :: int
  source_fasta :: string

datatype ui_error =
    InvalidDnaCharacter string char int
  | NoCandidatesFound string

record app_state =
  inputData :: "CsvRow list option"
  error :: "ui_error option"
  loading :: bool
  discoveredGrnasCount :: "nat option"

text \<open>
  \<open>RegExp.prototype.exec\<close> on a global pattern: the leftmost match that starts at or after
  \<open>lastIndex\<close>; a match sets \<open>lastIndex\<close> to its end, which the loop below passes on.  The
  loop is a partial function: an empty pattern would match without advancing, and the
  loop would not return (the callback returns before the loop on an empty pattern).
\<close>

fun search_from :: "rx_item list \<Rightarrow> string \<Rightarrow> nat \<Rightarrow> nat option" where
  "search_from rx [] k = (if match_here rx [] then Some k else None)"
| "search_from rx (c # s) k =
     (if match_here rx (c # s) then Some k else search_from rx s (Suc k))"

definition regex_exec :: "rx_item list \<Rightarrow> string \<Rightarrow> nat \<Rightarrow> nat option" where
  "regex_exec rx s lastIndex =
     (if lastIndex > length s then None else search_from rx (drop lastIndex s) lastIndex)"

definition scanner_pamRegex :: "string \<Rightarrow> rx_item list option" where
  "scanner_pamRegex pamPattern =
     parse_regex (replace_all (CHR ''N'') ''[ACGT]'' (toUpperCase pamPattern))"

partial_function (option) exec_loop ::
  "rx_item list \<Rightarrow> string \<Rightarrow> string \<Rightarrow> nat \<Rightarrow> CsvRow list \<Rightarrow> CsvRow list option" where
  "exec_loop pamRegex sequenceHeader seq lastIndex discoveredGrnas =
     (case regex_exec pamRegex seq lastIndex of
        None \<Rightarrow> Some discoveredGrnas
      | Some pamStart \<Rightarrow>
          exec_loop pamRegex sequenceHeader seq (pamStart + length pamRegex)
            (if pamStart \<ge> 20
             then discoveredGrnas @
               [\<lparr>protospacer = substring seq (int pamStart - 20) (int pamStart),
                 PAM = take (length pamRegex) (drop pamStart seq),
                 sequence_location = int pamStart - 20,
                 source_fasta = sequenceHeader\<rparr>]
             else discoveredGrnas))"

text \<open>\<open>sequence.match(/[^ACGT]/)\<close> and \<open>sequence.indexOf(invalidChar)\<close>.\<close>

definition first_invalid :: "string \<Rightarrow> char option" where
  "first_invalid s = find (\<lambda>c. c \<notin> set ''ACGT'') s"

fun indexOf_from :: "string \<Rightarrow> char \<Rightarrow> nat \<Rightarrow> int" where
  "indexOf_from [] c k = - 1"
| "indexOf_from (x # xs) c k = (if x = c then int k else indexOf_from xs c (Suc k))"

definition indexOf :: "string \<Rightarrow> char \<Rightarrow> int" where
  "indexOf s c = indexOf_from s c 0"

definition discoverGrnasFromFasta ::
  "FastaSequence list option \<Rightarrow> string \<Rightarrow> app_state \<Rightarrow> app_state completion" where
  "discoverGrnasFromFasta fastaContent pamPattern st =
     (case fastaContent of
        None \<Rightarrow> Returns (st\<lparr>inputData := None\<rparr>)
      | Some [] \<Rightarrow> Returns (st\<lparr>inputData := None\<rparr>)
      | Some (first # others) \<Rightarrow>
          if pamPattern = [] then Returns (st\<lparr>inputData := None\<rparr>)
          else
            (let st1 = st\<lparr>loading := True, error := None\<rparr> in
             case scanner_pamRegex pamPattern of
               None \<Rightarrow> PatternNotModelled
             | Some pamRegex \<Rightarrow>
                 (let seq = toUpperCase (sequence first);
                      sequenceHeader = header first
                  in case first_invalid seq of
                       Some invalidChar \<Rightarrow>
                         Returns (st1\<lparr>error := Some (InvalidDnaCharacter sequenceHeader
                                      invalidChar (indexOf seq invalidChar)),
                                    inputData := None, loading := False\<rparr>)
                     | None \<Rightarrow>
                         (case exec_loop pamRegex sequenceHeader seq 0 [] of
                            None \<Rightarrow> Diverges
                          | Some discoveredGrnas \<Rightarrow>
                              if length discoveredGrnas = 0
                              then Returns (st1\<lparr>error := Some (NoCandidatesFound pamPattern),
                                              inputData := None, loading := False\<rparr>)
                              else Returns (st1\<lparr>inputData := Some discoveredGrnas,
                                              discoveredGrnasCount := Some (length discoveredGrnas),
                                              loading := False\<rparr>)))))"

text \<open>
  The older copy of the callback: the same steps without the test for a symbol outside the
  alphabet.
\<close>

definition discoverGrnasFromFasta_older ::
  "FastaSequence list option \<Rightarrow> string \<Rightarrow> app_state \<Rightarrow> app_state completion" where
  "discoverGrnasFromFasta_older fastaContent pamPattern st =
     (case fastaContent of
        None \<Rightarrow> Returns (st\<lparr>inputData := None\<rparr>)
      | Some [] \<Rightarrow> Returns (st\<lparr>inputData := None\<rparr>)
      | Some (first # others) \<Rightarrow>
          if pamPattern = [] then Returns (st\<lparr>inputData := None\<rparr>)
          else
            (let st1 = st\<lparr>loading := True, error := None\<rparr> in
             case scanner_pamRegex pamPattern of
               None \<Rightarrow> PatternNotModelled
             | Some pamRegex \<Rightarrow>
                 (let seq = toUpperCase (sequence first)
                  in case exec_loop pamRegex (header first) seq 0 [] of
                       None \<Rightarrow> Diverges
                     | Some discoveredGrnas \<Rightarrow>
                         if length discoveredGrnas = 0
                         then Returns (st1\<lparr>error := Some (NoCandidatesFound pamPattern),
                                         inputData := None, loading := False\<rparr>)
                         else Returns (st1\<lparr>inputData := Some discoveredGrnas,
                                         discoveredGrnasCount := Some (length discoveredGrnas),
                                         loading := False\<rparr>))))"

text \<open>
  The scanner's pattern applied to a string on its own: a match at offset 0.
\<close>

definition scanner_accepts :: "string \<Rightarrow> string \<Rightarrow> bool" where
  "scanner_accepts pamPattern t =
     (case scanner_pamRegex pamPattern of
        None \<Rightarrow> False
      | Some pamRegex \<Rightarrow> regex_exec pamRegex t 0 = Some 0)"

definition initial_state :: app_state where
  "initial_state = \<lparr>inputData = None, error = None, loading = False, discoveredGrnasCount = None\<rparr>"

section \<open>The notions of the specification\<close>

text \<open>
  The words of the specification, written independently of the code: the positional
  encoding of a codon, primes and semiprimes (over finite ranges, so that they can be
  evaluated), the window integer and its score, wildcard matching of a motif pattern, and
  the scan that resumes after the end of each match.
\<close>

definition base_value :: "char \<Rightarrow> int" where
  "base_value c =
     (if c = CHR ''A'' then 0 else if c = CHR ''C'' then 1 else if c = CHR ''G'' then 2 else 3)"

definition valid_codon :: "string \<Rightarrow> bool" where
  "valid_codon u = (length u = 3 \<and> list_all (\<lambda>c. c \<in> set ''ACGT'') u)"

definition positional_value :: "string \<Rightarrow> int" where
  "positional_value u = base_value (u ! 0) * 16 + base_value (u ! 1) * 4 + base_value (u ! 2)"

definition intToCodon :: "int \<Rightarrow> string" where
  "intToCodon v =
     [''ACGT'' ! nat (v div 16), ''ACGT'' ! nat (v div 4 mod 4), ''ACGT'' ! nat (v mod 4)]"

text \<open>
  A prime is an integer above 1 with no divisor strictly between 1 and itself; a semiprime
  is a product of two primes, possibly equal.
\<close>

definition is_prime :: "int \<Rightarrow> bool" where
  "is_prime p = (1 < p \<and> list_all (\<lambda>d. \<not> d dvd p) [2..p - 1])"

definition is_semiprime :: "int \<Rightarrow> bool" where
  "is_semiprime n =
     list_ex (\<lambda>p. list_ex (\<lambda>q. is_prime p \<and> is_prime q \<and> p * q = n) [2..n]) [2..n]"

definition window_integer :: "string \<Rightarrow> nat \<Rightarrow> int" where
  "window_integer s i =
     positional_value (take 3 (drop i s)) * 64 + positional_value (take 3 (drop (i + 3) s))"

text \<open>
  The fingerprint of a factor pair as a real number: 0 when \<open>p * q = 0\<close> or the mean of the
  factors is at most 1, and \<open>(p - q)\<^sup>2 / (p * q * ln ((p + q) / 2))\<close> otherwise.  The score of
  a window is the fingerprint of the factor pair of its integer, and 0 when there is none.
\<close>

definition lambda_value :: "real \<Rightarrow> real \<Rightarrow> real" where
  "lambda_value p q =
     (if p * q = 0 \<or> (p + q) / 2 \<le> 1 then 0
      else (p - q) ^ 2 / (p * q * ln ((p + q) / 2)))"

definition window_score :: "string \<Rightarrow> nat \<Rightarrow> real" where
  "window_score s i =
     (case semiprimeFactors (window_integer s i) of
        Inr (p, q) \<Rightarrow> lambda_value (real_of_int p) (real_of_int q)
      | Inl e \<Rightarrow> 0)"

definition bases :: "string \<Rightarrow> bool" where
  "bases s = list_all (\<lambda>c. c \<in> set ''ACGT'') s"

text \<open>
  A motif pattern is a string over \<open>{A,C,G,T,N}\<close>.  A string matches it when it has the length
  of the pattern, carries a base wherever the pattern has \<open>N\<close>, and the pattern's own symbol
  everywhere else.
\<close>

definition motif_pattern :: "string \<Rightarrow> bool" where
  "motif_pattern p = list_all (\<lambda>c. c \<in> set ''ACGTN'') p"

definition motif_matches :: "string \<Rightarrow> string \<Rightarrow> bool" where
  "motif_matches pat s =
     (length s = length pat \<and>
      list_all2 (\<lambda>p c. if p = CHR ''N'' then c \<in> set ''ACGT'' else c = p) pat s)"

definition motif_at :: "string \<Rightarrow> string \<Rightarrow> nat \<Rightarrow> bool" where
  "motif_at pat s k =
     (k + length pat \<le> length s \<and> motif_matches pat (take (length pat) (drop k s)))"

text \<open>
  \<open>leftmost_scan M L n start ks\<close>: \<open>ks\<close> are the offsets found by looking for the first
  offset \<open>k \<ge> start\<close> with \<open>M k\<close>, then continuing in the same way from \<open>k + L\<close>, until no
  offset up to \<open>n\<close> is left.
\<close>

fun leftmost_scan :: "(nat \<Rightarrow> bool) \<Rightarrow> nat \<Rightarrow> nat \<Rightarrow> nat \<Rightarrow> nat list \<Rightarrow> bool" where
  "leftmost_scan M L n start [] = list_all (\<lambda>j. \<not> M j) [start..<Suc n]"
| "leftmost_scan M L n start (k # ks) =
     (start \<le> k \<and> k \<le> n \<and> M k \<and> list_all (\<lambda>j. \<not> M j) [start..<k]
      \<and> leftmost_scan M L n (k + L) ks)"

definition candidate_at :: "string \<Rightarrow> string \<Rightarrow> nat \<Rightarrow> nat \<Rightarrow> CsvRow" where
  "candidate_at hdr s L k =
     \<lparr>protospacer = take 20 (drop (k - 20) s), PAM = take L (drop k s),
      sequence_location = int k - 20, source_fasta = hdr\<rparr>"

section \<open>Auxiliary definitions\<close>

text \<open>
  What the two pattern texts parse to, and the row the scan loop appends for a match.
\<close>

fun scorer_items :: "string \<Rightarrow> rx_item list" where
  "scorer_items [] = []"
| "scorer_items (c # cs) = (if c = CHR ''N'' then Bases # map Lit cs else Lit c # scorer_items cs)"

definition scanner_items :: "string \<Rightarrow> rx_item list" where
  "scanner_items u = map (\<lambda>c. if c = CHR ''N'' then Bases else Lit c) u"

definition loop_row :: "rx_item list \<Rightarrow> string \<Rightarrow> string \<Rightarrow> nat \<Rightarrow> CsvRow" where
  "loop_row rx hdr s k =
     \<lparr>protospacer = substring s (int k - 20) (int k),
      PAM = take (length rx) (drop k s),
      sequence_location = int k - 20,
      source_fasta = hdr\<rparr>"

section \<open>Correctness of the codon encoder\<close>

lemma mem_ACGT:
  "c \<in> set ''ACGT'' \<longleftrightarrow> c = CHR ''A'' \<or> c = CHR ''C'' \<or> c = CHR ''G'' \<or> c = CHR ''T''"
  by auto

lemma toUpperChar_base: "c \<in> set ''ACGT'' \<Longrightarrow> toUpperChar c = c"
  unfolding mem_ACGT by (elim disjE) (simp_all add: toUpperChar_def)

lemma toUpperCase_bases: "list_all (\<lambda>c. c \<in> set ''ACGT'') u \<Longrightarrow> toUpperCase u = u"
  by (induction u) (simp_all add: toUpperCase_def toUpperChar_base del: set_simps)

lemma length_toUpperCase [simp]: "length (toUpperCase s) = length s"
  by (simp add: toUpperCase_def)

lemma valid_codon_cases:
  assumes "valid_codon u"
  obtains a b c where "u = [a, b, c]"
    "a \<in> set ''ACGT''" "b \<in> set ''ACGT''" "c \<in> set ''ACGT''"
proof -
  from assms have len: "length u = 3" and all: "list_all (\<lambda>c. c \<in> set ''ACGT'') u"
    by (simp_all add: valid_codon_def)
  from len obtain a b c where u: "u = [a, b, c]"
    by (auto simp: length_Suc_conv numeral_3_eq_3)
  with all that show thesis by simp
qed

lemma map_of_CODON2INT:
  assumes "a \<in> set ''ACGT''" "b \<in> set ''ACGT''" "c \<in> set ''ACGT''"
  shows "map_of CODON2INT [a, b, c] = Some (base_value a * 16 + base_value b * 4 + base_value c)"
proof -
  have a: "a = CHR ''A'' \<or> a = CHR ''C'' \<or> a = CHR ''G'' \<or> a = CHR ''T''"
    and b: "b = CHR ''A'' \<or> b = CHR ''C'' \<or> b = CHR ''G'' \<or> b = CHR ''T''"
    and c: "c = CHR ''A'' \<or> c = CHR ''C'' \<or> c = CHR ''G'' \<or> c = CHR ''T''"
    using assms by (simp_all only: mem_ACGT)
  from a b c show ?thesis
    by (elim disjE) (simp_all add: CODON2INT_def BASE4_def base_value_def)
qed

lemma base_value_range: "0 \<le> base_value c \<and> base_value c \<le> 3"
  by (simp add: base_value_def)

lemma codonToInt_valid:
  assumes "valid_codon (toUpperCase s)"
  shows "codonToInt s = Inr (positional_value (toUpperCase s))"
proof -
  from assms obtain a b c where u: "toUpperCase s = [a, b, c]"
    and m: "a \<in> set ''ACGT''" "b \<in> set ''ACGT''" "c \<in> set ''ACGT''"
    by (rule valid_codon_cases)
  have "test_ACGT_plus [a, b, c]"
    using m by (simp add: test_ACGT_plus_def del: set_simps)
  then show ?thesis
    using map_of_CODON2INT [OF m] by (simp add: codonToInt_def u positional_value_def)
qed

lemma codonToInt_invalid:
  assumes "\<not> valid_codon (toUpperCase s)"
  shows "codonToInt s = Inl (InvalidCodon (toUpperCase s))"
proof -
  have "length (toUpperCase s) \<noteq> 3 \<or> \<not> test_ACGT_plus (toUpperCase s)"
    using assms unfolding valid_codon_def test_ACGT_plus_def by blast
  then show ?thesis
    unfolding codonToInt_def Let_def by (simp only: if_True)
qed

lemma positional_value_range:
  assumes "valid_codon u"
  shows "0 \<le> positional_value u \<and> positional_value u \<le> 63"
proof -
  have "0 \<le> base_value (u ! 0) \<and> base_value (u ! 0) \<le> 3"
    and "0 \<le> base_value (u ! 1) \<and> base_value (u ! 1) \<le> 3"
    and "0 \<le> base_value (u ! 2) \<and> base_value (u ! 2) \<le> 3"
    by (rule base_value_range)+
  then show ?thesis unfolding positional_value_def by linarith
qed

lemma digit_value:
  assumes "0 \<le> d" "d < 4"
  shows "base_value (''ACGT'' ! nat d) = d" and "''ACGT'' ! nat d \<in> set ''ACGT''"
proof -
  from assms have "d = 0 \<or> d = 1 \<or> d = 2 \<or> d = 3" by arith
  then show "base_value (''ACGT'' ! nat d) = d" and "''ACGT'' ! nat d \<in> set ''ACGT''"
    by (elim disjE; simp add: base_value_def)+
qed

lemma intToCodon_base:
  assumes "a \<in> set ''ACGT''" "b \<in> set ''ACGT''" "c \<in> set ''ACGT''"
  shows "intToCodon (base_value a * 16 + base_value b * 4 + base_value c) = [a, b, c]"
proof -
  have a: "a = CHR ''A'' \<or> a = CHR ''C'' \<or> a = CHR ''G'' \<or> a = CHR ''T''"
    and b: "b = CHR ''A'' \<or> b = CHR ''C'' \<or> b = CHR ''G'' \<or> b = CHR ''T''"
    and c: "c = CHR ''A'' \<or> c = CHR ''C'' \<or> c = CHR ''G'' \<or> c = CHR ''T''"
    using assms by (simp_all only: mem_ACGT)
  from a b c show ?thesis
    by (elim disjE) (simp_all add: intToCodon_def base_value_def)
qed

lemma intToCodon_positional_value:
  assumes "valid_codon u"
  shows "intToCodon (positional_value u) = u"
proof -
  from assms obtain a b c where u: "u = [a, b, c]"
    and m: "a \<in> set ''ACGT''" "b \<in> set ''ACGT''" "c \<in> set ''ACGT''"
    by (rule valid_codon_cases)
  show ?thesis using intToCodon_base [OF m] by (simp add: u positional_value_def)
qed

lemma positional_value_intToCodon:
  assumes "0 \<le> v" "v \<le> 63"
  shows "valid_codon (intToCodon v)" and "positional_value (intToCodon v) = v"
proof -
  have a: "0 \<le> v div 16" "v div 16 < 4" using assms by auto
  have b: "0 \<le> v div 4 mod 4" "v div 4 mod 4 < 4" by auto
  have c: "0 \<le> v mod 4" "v mod 4 < 4" by auto
  show "valid_codon (intToCodon v)"
    using digit_value(2) [OF a] digit_value(2) [OF b] digit_value(2) [OF c]
    by (simp add: valid_codon_def intToCodon_def del: set_simps)
  have "positional_value (intToCodon v) = (v div 16) * 16 + (v div 4 mod 4) * 4 + v mod 4"
    using digit_value(1) [OF a] digit_value(1) [OF b] digit_value(1) [OF c]
    by (simp add: positional_value_def intToCodon_def)
  also have "\<dots> = v"
  proof -
    have "v div 4 div 4 = v div 16" by (simp add: zdiv_zmult2_eq [symmetric])
    moreover have "v div 4 = (v div 4 div 4) * 4 + v div 4 mod 4" by simp
    moreover have "v = (v div 4) * 4 + v mod 4" by simp
    ultimately show ?thesis by linarith
  qed
  finally show "positional_value (intToCodon v) = v" .
qed

lemma toUpperCase_valid_codon: "valid_codon u \<Longrightarrow> toUpperCase u = u"
  by (simp add: valid_codon_def toUpperCase_bases)

lemma codonToInt_fixed: "valid_codon u \<Longrightarrow> codonToInt u = Inr (positional_value u)"
  using codonToInt_valid [of u] by (simp add: toUpperCase_valid_codon)

lemma codonToInt_bij: "bij_betw codonToInt {u. valid_codon u} (Inr ` {0..63})"
proof (rule bij_betw_byWitness
    [where f' = "\<lambda>r. case r of Inr v \<Rightarrow> intToCodon v | Inl e \<Rightarrow> []"])
  show "\<forall>u\<in>{u. valid_codon u}.
      (case codonToInt u of Inr v \<Rightarrow> intToCodon v | Inl e \<Rightarrow> []) = u"
    by (simp add: codonToInt_fixed intToCodon_positional_value)
  show "\<forall>r\<in>Inr ` {0..63}.
      codonToInt (case r of Inr v \<Rightarrow> intToCodon v | Inl e \<Rightarrow> []) = r"
    by (auto simp: codonToInt_fixed positional_value_intToCodon)
  show "codonToInt ` {u. valid_codon u} \<subseteq> Inr ` {0..63}"
    using positional_value_range by (auto simp: codonToInt_fixed)
  show "(\<lambda>r. case r of Inr v \<Rightarrow> intToCodon v | Inl e \<Rightarrow> []) ` Inr ` {0..63}
      \<subseteq> {u. valid_codon u}"
    by (auto simp: positional_value_intToCodon)
qed

text \<open>
  Claim C3.  After normalising to upper case, a string of three symbols over
  \<open>{A,C,G,T}\<close> is encoded as first * 16 + second * 4 + third with A=0, C=1, G=2, T=3;
  every other string (wrong length, or a symbol outside the alphabet) makes the encoder
  throw the Invalid-Codon error, whose message quotes the normalised string; and on the 64
  codons the encoder is a bijection onto the integers 0 to 63.
\<close>

theorem codonToInt_spec:
  "(valid_codon (toUpperCase s) \<longrightarrow> codonToInt s = Inr (positional_value (toUpperCase s)))
   \<and> (\<not> valid_codon (toUpperCase s) \<longrightarrow> codonToInt s = Inl (InvalidCodon (toUpperCase s)))
   \<and> bij_betw codonToInt {u. valid_codon u} (Inr ` {0..63})"
  using codonToInt_valid codonToInt_invalid codonToInt_bij by blast

theorem codonToInt_spec_witness:
  "valid_codon (toUpperCase ''acg'') \<and> codonToInt ''acg'' = Inr 6
   \<and> \<not> valid_codon (toUpperCase ''ACGT'') \<and> codonToInt ''ACGT'' = Inl (InvalidCodon ''ACGT'')
   \<and> \<not> valid_codon (toUpperCase ''anG'') \<and> codonToInt ''anG'' = Inl (InvalidCodon ''ANG'')"
  using codonToInt_spec [of "''acg''"] codonToInt_spec [of "''ACGT''"]
    codonToInt_spec [of "''anG''"]
  by (simp add: valid_codon_def toUpperCase_def toUpperChar_def positional_value_def
      base_value_def)

section \<open>Correctness of the primality test\<close>

lemma is_prime_iff: "is_prime p \<longleftrightarrow> 1 < p \<and> (\<forall>d. 2 \<le> d \<and> d < p \<longrightarrow> \<not> d dvd p)"
  by (auto simp: is_prime_def list_all_iff)

lemma is_semiprime_iff:
  "is_semiprime n \<longleftrightarrow>
     (\<exists>p q. 2 \<le> p \<and> p \<le> n \<and> 2 \<le> q \<and> q \<le> n \<and> is_prime p \<and> is_prime q \<and> p * q = n)"
  by (auto simp: is_semiprime_def list_ex_iff)

lemma square_mono_int: "0 \<le> (a::int) \<Longrightarrow> a \<le> b \<Longrightarrow> a * a \<le> b * b"
  by (simp add: mult_mono)

lemma isPrime_loop_False:
  "3 \<le> i \<Longrightarrow> \<not> isPrime_loop i num \<Longrightarrow> \<exists>d. 1 < d \<and> d < num \<and> d dvd num"
proof (induction i num rule: isPrime_loop.induct)
  case (1 i num)
  show ?case
  proof (cases "i * i \<le> num")
    case False
    with "1.prems" show ?thesis by (simp add: isPrime_loop.simps [of i num])
  next
    case sq: True
    have "i * 3 \<le> i * i" using "1.prems"(1) by (intro mult_left_mono) auto
    then have lt: "i + 2 < num" using sq "1.prems"(1) by linarith
    show ?thesis
    proof (cases "num mod i = 0 \<or> num mod (i + 2) = 0")
      case True
      then have "i dvd num \<or> (i + 2) dvd num" by (simp add: dvd_eq_mod_eq_0)
      then show ?thesis
      proof
        assume "i dvd num"
        with lt "1.prems"(1) show ?thesis by (intro exI [of _ i]) auto
      next
        assume "(i + 2) dvd num"
        with lt "1.prems"(1) show ?thesis by (intro exI [of _ "i + 2"]) auto
      qed
    next
      case False
      with sq "1.prems" have "\<not> isPrime_loop (i + 6) num"
        by (simp add: isPrime_loop.simps [of i num])
      moreover have "3 \<le> i + 6" using "1.prems"(1) by simp
      ultimately show ?thesis using "1.IH" sq False by blast
    qed
  qed
qed

lemma isPrime_loop_True:
  "0 \<le> i \<Longrightarrow> isPrime_loop i num \<Longrightarrow> i \<le> d \<Longrightarrow> d * d \<le> num \<Longrightarrow>
   6 dvd d - i \<or> 6 dvd d - (i + 2) \<Longrightarrow> \<not> d dvd num"
proof (induction i num rule: isPrime_loop.induct)
  case (1 i num)
  have sq: "i * i \<le> num"
    using square_mono_int [OF "1.prems"(1) "1.prems"(3)] "1.prems"(4) by linarith
  have nd: "\<not> (num mod i = 0 \<or> num mod (i + 2) = 0)"
    using "1.prems"(2) sq by (auto simp: isPrime_loop.simps [of i num] split: if_splits)
  then have loop: "isPrime_loop (i + 6) num"
    using "1.prems"(2) sq by (simp add: isPrime_loop.simps [of i num])
  from "1.prems"(5) obtain m where m: "d - i = 6 * m \<or> d - (i + 2) = 6 * m"
    by (auto simp: dvd_def)
  then have "d = i \<or> d = i + 2 \<or> (1 \<le> m \<and> i + 6 \<le> d)"
    using "1.prems"(3) by arith
  then consider "d = i" | "d = i + 2" | "1 \<le> m" "i + 6 \<le> d" by blast
  then show ?case
  proof cases
    case 1
    with nd show ?thesis by (simp add: dvd_eq_mod_eq_0)
  next
    case 2
    with nd show ?thesis by (simp add: dvd_eq_mod_eq_0)
  next
    case 3
    from m have "d - (i + 6) = 6 * (m - 1) \<or> d - (i + 6 + 2) = 6 * (m - 1)" by arith
    then have "6 dvd d - (i + 6) \<or> 6 dvd d - (i + 6 + 2)"
      by (metis dvd_triv_left)
    with "1.IH" [OF sq nd _ loop 3(2) "1.prems"(4)] "1.prems"(1) show ?thesis by simp
  qed
qed

lemma residue_mod_6:
  assumes "2 \<le> (m::int)" "\<not> 2 dvd m" "\<not> 3 dvd m"
  shows "5 \<le> m \<and> (6 dvd m - 5 \<or> 6 dvd m - (5 + 2))"
proof -
  define q r where "q = m div 6" and "r = m mod 6"
  have m: "m = 6 * q + r" by (simp add: q_def r_def)
  have "0 \<le> r" "r < 6" by (simp_all add: r_def)
  then have "r = 0 \<or> r = 1 \<or> r = 2 \<or> r = 3 \<or> r = 4 \<or> r = 5" by arith
  moreover have "r \<noteq> 0" using assms(2) m by (auto simp: dvd_def)
  moreover have "r \<noteq> 2"
  proof
    assume "r = 2"
    then have "m = 2 * (3 * q + 1)" using m by simp
    with assms(2) show False by (metis dvd_triv_left)
  qed
  moreover have "r \<noteq> 4"
  proof
    assume "r = 4"
    then have "m = 2 * (3 * q + 2)" using m by simp
    with assms(2) show False by (metis dvd_triv_left)
  qed
  moreover have "r \<noteq> 3"
  proof
    assume "r = 3"
    then have "m = 3 * (2 * q + 1)" using m by simp
    with assms(3) show False by (metis dvd_triv_left)
  qed
  ultimately have "r = 1 \<or> r = 5" by blast
  then show ?thesis
  proof
    assume "r = 1"
    with m assms(1) have e: "m - (5 + 2) = 6 * (q - 1)" and "5 \<le> m" by arith+
    moreover have "6 dvd m - (5 + 2)" unfolding e by (rule dvd_triv_left)
    ultimately show ?thesis by blast
  next
    assume "r = 5"
    with m assms(1) have e: "m - 5 = 6 * q" and "5 \<le> m" by arith+
    moreover have "6 dvd m - 5" unfolding e by (rule dvd_triv_left)
    ultimately show ?thesis by blast
  qed
qed

lemma isPrime_imp_is_prime:
  assumes "isPrime num"
  shows "is_prime num"
proof -
  from assms have gt: "1 < num" by (auto simp: isPrime_def split: if_splits)
  show ?thesis
  proof (cases "num \<le> 3")
    case True
    with gt have "num = 2 \<or> num = 3" by arith
    then show ?thesis
    proof
      assume "num = 2"
      then show ?thesis by (simp add: is_prime_def)
    next
      assume "num = 3"
      then show ?thesis by (simp add: is_prime_def)
    qed
  next
    case big: False
    with assms gt have n2: "num mod 2 \<noteq> 0" and n3: "num mod 3 \<noteq> 0"
      and loop: "isPrime_loop 5 num"
      by (auto simp: isPrime_def split: if_splits)
    have "\<not> d dvd num" if d: "2 \<le> d" "d < num" for d
    proof
      assume dv: "d dvd num"
      then obtain e where e: "num = d * e" by (auto simp: dvd_def)
      have epos: "0 < e" using e gt d(1) by (metis less_le_trans mult.commute not_less zero_less_mult_pos2 zero_less_one zero_less_numeral order_less_trans)
      have e2: "2 \<le> e"
      proof (rule ccontr)
        assume "\<not> 2 \<le> e"
        with epos have "e = 1" by linarith
        with e d(2) show False by simp
      qed
      define m where "m = min d e"
      have m2: "2 \<le> m" and mdv: "m dvd num" using d(1) e2 e by (auto simp: m_def min_def)
      have msq: "m * m \<le> num"
      proof -
        have "m * m \<le> d * e" using d(1) e2 by (intro mult_mono) (auto simp: m_def)
        with e show ?thesis by simp
      qed
      have "\<not> 2 dvd m" using mdv n2 by (meson dvd_trans dvd_eq_mod_eq_0)
      moreover have "\<not> 3 dvd m" using mdv n3 by (meson dvd_trans dvd_eq_mod_eq_0)
      ultimately have "5 \<le> m \<and> (6 dvd m - 5 \<or> 6 dvd m - (5 + 2))"
        using m2 by (intro residue_mod_6)
      with isPrime_loop_True [OF _ loop, of m] msq mdv show False by simp
    qed
    with gt show ?thesis by (simp add: is_prime_iff)
  qed
qed

lemma is_prime_imp_isPrime:
  assumes "is_prime num"
  shows "isPrime num"
proof (rule ccontr)
  assume np: "\<not> isPrime num"
  from assms have gt: "1 < num" and nod: "\<And>d. 2 \<le> d \<Longrightarrow> d < num \<Longrightarrow> \<not> d dvd num"
    by (auto simp: is_prime_iff)
  from np gt have big: "3 < num" by (auto simp: isPrime_def split: if_splits)
  have "num mod 2 \<noteq> 0" using nod [of 2] big by (simp add: dvd_eq_mod_eq_0)
  moreover have "num mod 3 \<noteq> 0" using nod [of 3] big by (simp add: dvd_eq_mod_eq_0)
  ultimately have "\<not> isPrime_loop 5 num" using np big by (simp add: isPrime_def)
  from isPrime_loop_False [OF _ this] obtain d where "1 < d" "d < num" "d dvd num" by auto
  with nod [of d] show False by simp
qed

lemma isPrime_iff: "isPrime num \<longleftrightarrow> is_prime num"
  using isPrime_imp_is_prime is_prime_imp_isPrime by blast

section \<open>Correctness of the semiprime decomposer\<close>

lemma semiprime_loop_Inr:
  "semiprime_loop i n = Inr (p, q) \<Longrightarrow>
   i \<le> p \<and> p * p \<le> n \<and> n mod p = 0 \<and> q = n div p \<and> isPrime p \<and> isPrime q"
proof (induction i n rule: semiprime_loop.induct)
  case (1 i n)
  show ?case
  proof (cases "i * i \<le> n")
    case False
    with "1.prems" show ?thesis by (simp add: semiprime_loop.simps [of i n])
  next
    case sq: True
    show ?thesis
    proof (cases "n mod i = 0 \<and> isPrime i \<and> isPrime (n div i)")
      case True
      with sq "1.prems" have "p = i \<and> q = n div i"
        by (auto simp: semiprime_loop.simps [of i n] Let_def)
      with sq True show ?thesis by simp
    next
      case False
      with sq "1.prems" have next_loop: "semiprime_loop (i + 1) n = Inr (p, q)"
        by (auto simp: semiprime_loop.simps [of i n] Let_def split: if_splits)
      have ih: "i + 1 \<le> p \<and> p * p \<le> n \<and> n mod p = 0 \<and> q = n div p \<and> isPrime p \<and> isPrime q"
      proof (cases "n mod i = 0")
        case True
        with False have "\<not> (isPrime i \<and> isPrime (n div i))" by simp
        from "1.IH"(1) [OF sq True refl refl this next_loop] show ?thesis .
      next
        case False
        from "1.IH"(2) [OF sq False next_loop] show ?thesis .
      qed
      then have "i \<le> p" by linarith
      with ih show ?thesis by blast
    qed
  qed
qed

lemma semiprime_loop_Inl:
  "semiprime_loop i n = Inl e \<Longrightarrow> 0 \<le> i \<Longrightarrow>
   e = NotSemiprime n \<and>
   (\<forall>j. i \<le> j \<and> j * j \<le> n \<longrightarrow> \<not> (n mod j = 0 \<and> isPrime j \<and> isPrime (n div j)))"
proof (induction i n rule: semiprime_loop.induct)
  case (1 i n)
  show ?case
  proof (cases "i * i \<le> n")
    case False
    have "\<not> j * j \<le> n" if "i \<le> j" for j
      using square_mono_int [OF "1.prems"(2) that] False by linarith
    then have "\<forall>j. i \<le> j \<and> j * j \<le> n \<longrightarrow>
        \<not> (n mod j = 0 \<and> isPrime j \<and> isPrime (n div j))"
      by (intro allI impI) (elim conjE notE, simp)
    moreover have "e = NotSemiprime n"
      using False "1.prems"(1) by (simp add: semiprime_loop.simps [of i n])
    ultimately show ?thesis by (intro conjI)
  next
    case sq: True
    have here: "\<not> (n mod i = 0 \<and> isPrime i \<and> isPrime (n div i))"
      using sq "1.prems"(1) by (auto simp: semiprime_loop.simps [of i n])
    with sq "1.prems" have next_loop: "semiprime_loop (i + 1) n = Inl e"
      by (auto simp: semiprime_loop.simps [of i n] Let_def split: if_splits)
    have ih: "e = NotSemiprime n \<and>
      (\<forall>j. i + 1 \<le> j \<and> j * j \<le> n \<longrightarrow> \<not> (n mod j = 0 \<and> isPrime j \<and> isPrime (n div j)))"
    proof (cases "n mod i = 0")
      case True
      with here have "\<not> (isPrime i \<and> isPrime (n div i))" by simp
      from "1.IH"(1) [OF sq True refl refl this next_loop] "1.prems"(2) show ?thesis by simp
    next
      case False
      from "1.IH"(2) [OF sq False next_loop] "1.prems"(2) show ?thesis by simp
    qed
    have "\<not> (n mod j = 0 \<and> isPrime j \<and> isPrime (n div j))" if "i \<le> j" "j * j \<le> n" for j
    proof (cases "j = i")
      case True
      with here show ?thesis by simp
    next
      case False
      with that have "i + 1 \<le> j \<and> j * j \<le> n" by simp
      with ih [THEN conjunct2, THEN spec, of j] show ?thesis by (rule mp)
    qed
    then have "\<forall>j. i \<le> j \<and> j * j \<le> n \<longrightarrow>
        \<not> (n mod j = 0 \<and> isPrime j \<and> isPrime (n div j))"
      by (intro allI impI) (elim conjE)
    with ih [THEN conjunct1] show ?thesis by (rule conjI)
  qed
qed

lemma is_prime_coprime:
  assumes "is_prime p" "\<not> p dvd a"
  shows "coprime p a"
proof -
  from assms(1) have p: "1 < p" and nod: "\<And>d. 2 \<le> d \<Longrightarrow> d < p \<Longrightarrow> \<not> d dvd p"
    by (auto simp: is_prime_iff)
  define g where "g = gcd p a"
  have gp: "g dvd p" and ga: "g dvd a" by (simp_all add: g_def)
  have "0 \<le> g" by (simp add: g_def)
  moreover have "g \<noteq> 0" using p by (auto simp: g_def)
  moreover have "g \<le> p" using gp p by (intro zdvd_imp_le) auto
  moreover have "g \<noteq> p" using ga assms(2) by auto
  ultimately have "g = 1" using nod [of g] gp by (cases "g = 1") auto
  then show ?thesis by (simp add: g_def coprime_iff_gcd_eq_1)
qed

lemma is_prime_dvd_mult:
  assumes "is_prime p" "p dvd a * b"
  shows "p dvd a \<or> p dvd b"
proof (cases "p dvd a")
  case True
  then show ?thesis ..
next
  case False
  with assms(1) have "coprime p a" by (rule is_prime_coprime)
  with assms(2) have "p dvd b" by (simp add: coprime_dvd_mult_right_iff)
  then show ?thesis ..
qed

lemma is_prime_dvd_is_prime:
  assumes "is_prime r" "is_prime p" "r dvd p"
  shows "r = p"
proof -
  from assms(1,2) have r: "1 < r" and p: "1 < p" by (simp_all add: is_prime_iff)
  have "r \<le> p" using assms(3) p by (intro zdvd_imp_le) auto
  moreover have "\<not> r < p" using assms(2,3) r by (auto simp: is_prime_iff)
  ultimately show ?thesis by simp
qed

lemma semiprimeFactors_semiprime:
  assumes "is_semiprime n"
  shows "\<exists>p q. semiprimeFactors n = Inr (p, q) \<and> p \<le> q \<and> is_prime p \<and> is_prime q \<and> p * q = n
    \<and> (\<forall>r. is_prime r \<and> r dvd n \<longrightarrow> p \<le> r)"
proof -
  from assms obtain p0 q0 where pq0: "is_prime p0" "is_prime q0" "p0 * q0 = n"
    by (auto simp: is_semiprime_iff)
  define a b where "a = min p0 q0" and "b = max p0 q0"
  have ab: "is_prime a" "is_prime b" "a * b = n" "a \<le> b"
    using pq0 by (auto simp: a_def b_def min_def max_def mult.commute)
  then have a1: "1 < a" and b1: "1 < b" by (simp_all add: is_prime_iff)
  have n1: "1 < n"
  proof -
    have "1 * 1 < a * b" using a1 b1 by (intro mult_strict_mono) auto
    with ab(3) show ?thesis by simp
  qed
  have asq: "a * a \<le> n"
  proof -
    have "a * a \<le> a * b" using ab(4) a1 by (intro mult_left_mono) auto
    with ab(3) show ?thesis by simp
  qed
  have adiv: "n mod a = 0" "n div a = b" using ab(3) a1 by auto
  have run: "semiprimeFactors n = semiprime_loop 2 n" using n1 by (simp add: semiprimeFactors_def)
  have "\<exists>p q. semiprime_loop 2 n = Inr (p, q)"
  proof (cases "semiprime_loop 2 n")
    case (Inl e)
    from semiprime_loop_Inl [OF Inl] a1 asq adiv ab(1,2) show ?thesis
      by (auto simp: isPrime_iff)
  next
    case (Inr pq)
    then show ?thesis by (cases pq) auto
  qed
  then obtain p q where res: "semiprime_loop 2 n = Inr (p, q)" by blast
  from semiprime_loop_Inr [OF res]
  have p2: "2 \<le> p" and psq: "p * p \<le> n" and pm: "n mod p = 0" and q: "q = n div p"
    and pp: "is_prime p" and qp: "is_prime q"
    unfolding isPrime_iff by blast+
  have prod: "p * q = n" using pm q by (simp add: mod_0_imp_dvd)
  have le: "p \<le> q"
  proof -
    from psq prod have "p * p \<le> p * q" by simp
    with p2 show ?thesis by (simp add: mult_le_cancel_left_pos)
  qed
  have "p \<le> r" if "is_prime r" "r dvd n" for r
  proof -
    from that(2) prod have "r dvd p * q" by simp
    with that(1) have "r dvd p \<or> r dvd q" by (rule is_prime_dvd_mult)
    then have "r = p \<or> r = q" using is_prime_dvd_is_prime that(1) pp qp by blast
    with le show ?thesis by auto
  qed
  with run res le pp qp prod show ?thesis by auto
qed

lemma semiprimeFactors_not_semiprime:
  assumes "\<not> is_semiprime n"
  shows "semiprimeFactors n = Inl (if n \<le> 1 then InputTooSmall else NotSemiprime n)"
proof (cases "n \<le> 1")
  case True
  then show ?thesis by (simp add: semiprimeFactors_def)
next
  case False
  then have run: "semiprimeFactors n = semiprime_loop 2 n" by (simp add: semiprimeFactors_def)
  show ?thesis
  proof (cases "semiprime_loop 2 n")
    case (Inl e)
    from semiprime_loop_Inl [OF Inl] have "e = NotSemiprime n" by simp
    with run Inl False show ?thesis by simp
  next
    case (Inr pq)
    obtain p q where pq: "pq = (p, q)" by (cases pq)
    from semiprime_loop_Inr [OF Inr [unfolded pq]]
    have p2: "2 \<le> p" and pm: "n mod p = 0" and q: "q = n div p"
      and pp: "is_prime p" and qp: "is_prime q"
      unfolding isPrime_iff by blast+
    have prod: "p * q = n" using pm q by (simp add: mod_0_imp_dvd)
    have q2: "2 \<le> q" using qp by (simp add: is_prime_iff)
    have "p * 1 \<le> p * q" using p2 q2 by (intro mult_left_mono) auto
    then have pn: "p \<le> n" using prod by simp
    have "1 * q \<le> p * q" using p2 q2 by (intro mult_right_mono) auto
    then have qn: "q \<le> n" using prod by simp
    have "is_semiprime n"
      unfolding is_semiprime_iff using p2 q2 pn qn pp qp prod by blast
    with assms show ?thesis by simp
  qed
qed

text \<open>
  Claim C2.  When \<open>n\<close> is a product of exactly two primes the decomposer returns the pair
  \<open>(p, q)\<close> with \<open>p \<le> q\<close>, both prime, \<open>p * q = n\<close>, and \<open>p\<close> the smallest prime factor of \<open>n\<close>;
  for every other integer (a prime, a product of three or more primes, or \<open>n \<le> 1\<close>) it
  throws instead of returning a pair.  Proved for every integer, so in particular on the
  operating range 2 to 4095.
\<close>

theorem semiprimeFactors_spec:
  "(is_semiprime n \<longrightarrow>
      (\<exists>p q. semiprimeFactors n = Inr (p, q) \<and> p \<le> q \<and> is_prime p \<and> is_prime q \<and> p * q = n
         \<and> (\<forall>r. is_prime r \<and> r dvd n \<longrightarrow> p \<le> r)))
   \<and> (\<not> is_semiprime n \<longrightarrow>
      semiprimeFactors n = Inl (if n \<le> 1 then InputTooSmall else NotSemiprime n))"
  using semiprimeFactors_semiprime semiprimeFactors_not_semiprime by blast

theorem semiprimeFactors_spec_witness:
  "is_semiprime 6 \<and> semiprimeFactors 6 = Inr (2, 3)
   \<and> is_semiprime 4 \<and> semiprimeFactors 4 = Inr (2, 2)
   \<and> \<not> is_semiprime 7 \<and> semiprimeFactors 7 = Inl (NotSemiprime 7)
   \<and> \<not> is_semiprime 12 \<and> semiprimeFactors 12 = Inl (NotSemiprime 12)
   \<and> \<not> is_semiprime 1 \<and> semiprimeFactors 1 = Inl InputTooSmall"
proof -
  have a: "is_semiprime 6" "is_semiprime 4"
    by (simp_all add: is_semiprime_def is_prime_def)
  have b: "\<not> is_semiprime 7" "\<not> is_semiprime 12" "\<not> is_semiprime 1"
    by (simp_all add: is_semiprime_def is_prime_def)
  have d: "semiprimeFactors 6 = Inr (2, 3)" "semiprimeFactors 4 = Inr (2, 2)"
    by (simp_all add: semiprimeFactors_def semiprime_loop.simps isPrime_def)
  show ?thesis
    using semiprimeFactors_spec [of 6] semiprimeFactors_spec [of 4] semiprimeFactors_spec [of 7]
      semiprimeFactors_spec [of 12] semiprimeFactors_spec [of 1] a b d
    by simp
qed

section \<open>The fingerprint\<close>

lemma threshold_large: "2 ^ 100 < overflow_threshold"
  by (simp add: overflow_threshold_def)

lemma overflow_finite: "\<bar>x\<bar> \<le> 2 ^ 100 \<Longrightarrow> overflow x = Finite x"
  using threshold_large unfolding overflow_def by (simp add: abs_le_iff)

lemma ln_lower_bound:
  fixes x :: real
  assumes "0 < x"
  shows "1 - 1 / x \<le> ln x"
proof -
  have "ln (1 / x) \<le> 1 / x - 1" using assms by (intro ln_le_minus_one) simp
  moreover have "ln (1 / x) = - ln x" using assms by (simp add: ln_div)
  ultimately show ?thesis by simp
qed

lemma small_product:
  fixes p q :: real
  assumes "0 \<le> p" "p \<le> 4095" "0 \<le> q" "q \<le> 4095"
  shows "0 \<le> p * q" "p * q \<le> 4095 * 4095"
proof -
  show "0 \<le> p * q" using assms by simp
  show "p * q \<le> 4095 * 4095" using assms by (intro mult_mono) simp_all
qed

lemma fingerprint_parts:
  fixes p q :: real
  assumes "0 \<le> p" "p \<le> 4095" "0 \<le> q" "q \<le> 4095"
  shows "number_div (number_add (Finite p) (Finite q)) (Finite 2) = Finite ((p + q) / 2)"
    and "number_mul (Finite p) (Finite q) = Finite (p * q)"
    and "Math_abs (number_sub (Finite p) (Finite q)) = Finite \<bar>p - q\<bar>"
    and "number_square (Finite \<bar>p - q\<bar>) = Finite ((p - q) ^ 2)"
proof -
  have "\<bar>p + q\<bar> \<le> 2 ^ 100" using assms by simp
  then have add: "overflow (p + q) = Finite (p + q)" by (rule overflow_finite)
  have "\<bar>(p + q) / 2\<bar> \<le> 2 ^ 100" using assms by simp
  then have "overflow ((p + q) / 2) = Finite ((p + q) / 2)" by (rule overflow_finite)
  with add show "number_div (number_add (Finite p) (Finite q)) (Finite 2) = Finite ((p + q) / 2)"
    by simp
  have "\<bar>p * q\<bar> \<le> 2 ^ 100" using small_product [OF assms] by simp
  then have "overflow (p * q) = Finite (p * q)" by (rule overflow_finite)
  then show "number_mul (Finite p) (Finite q) = Finite (p * q)" by simp
  have "\<bar>p - q\<bar> \<le> 2 ^ 100" using assms by simp
  then have "overflow (p - q) = Finite (p - q)" by (rule overflow_finite)
  then show "Math_abs (number_sub (Finite p) (Finite q)) = Finite \<bar>p - q\<bar>" by simp
  have d: "0 \<le> \<bar>p - q\<bar>" "\<bar>p - q\<bar> \<le> 4095" using assms by simp_all
  have "\<bar>p - q\<bar> * \<bar>p - q\<bar> \<le> 4095 * 4095" using d by (intro mult_mono) simp_all
  then have "\<bar>(p - q) ^ 2\<bar> \<le> 2 ^ 100" by (simp add: power2_eq_square abs_mult)
  then have "overflow ((p - q) ^ 2) = Finite ((p - q) ^ 2)" by (rule overflow_finite)
  then show "number_square (Finite \<bar>p - q\<bar>) = Finite ((p - q) ^ 2)" by simp
qed

lemma fingerprint_degenerate:
  fixes p q :: real
  assumes "0 \<le> p" "p \<le> 4095" "0 \<le> q" "q \<le> 4095"
    and "p * q = 0 \<or> (p + q) / 2 \<le> 1"
  shows "fingerprint (Finite p) (Finite q) = Finite 0"
  unfolding fingerprint_def Let_def fingerprint_parts(1,2) [OF assms(1-4)]
  using assms(5) by auto

text \<open>
  Factors from 1 to 4095 with a mean of at least 3/2: no operation of the fingerprint
  overflows, the result is the value of the formula, and it lies between 0 and \<open>2\<^sup>2\<^sup>6\<close>.
\<close>

lemma fingerprint_in_range:
  fixes p q :: real
  assumes "1 \<le> p" "p \<le> 4095" "1 \<le> q" "q \<le> 4095" "3 \<le> p + q"
  shows "fingerprint (Finite p) (Finite q) = Finite ((p - q) ^ 2 / (p * q * ln ((p + q) / 2)))"
    and "0 \<le> (p - q) ^ 2 / (p * q * ln ((p + q) / 2))"
    and "(p - q) ^ 2 / (p * q * ln ((p + q) / 2)) \<le> 2 ^ 26"
proof -
  let ?a = "(p + q) / 2"
  let ?d = "p * q * ln ?a"
  have nn: "0 \<le> p" "0 \<le> q" using assms by simp_all
  have a: "3 / 2 \<le> ?a" "?a \<le> 4095" using assms by simp_all
  have "1 - 1 / ?a \<le> ln ?a" using a(1) by (intro ln_lower_bound) simp
  moreover have "1 / ?a \<le> 2 / 3" using a(1) by (simp add: field_simps)
  ultimately have ln_lo: "1 / 3 \<le> ln ?a" by simp
  have "ln ?a \<le> ?a - 1" using a(1) by (intro ln_le_minus_one) simp
  with a(2) have ln_hi: "ln ?a \<le> 4094" by linarith
  have m: "1 \<le> p * q" "p * q \<le> 4095 * 4095"
    using mult_mono [of 1 p 1 q] assms small_product [OF nn(1) assms(2) nn(2) assms(4)]
    by simp_all
  have "1 * (1 / 3) \<le> ?d" using m(1) ln_lo by (intro mult_mono) simp_all
  then have d_lo: "1 / 3 \<le> ?d" by simp
  have "?d \<le> (4095 * 4095) * 4094" by (rule mult_mono) (use m ln_lo ln_hi in simp_all)
  then have "\<bar>?d\<bar> \<le> 2 ^ 100" using d_lo by simp
  then have den: "overflow ?d = Finite ?d" by (rule overflow_finite)
  have "\<bar>p - q\<bar> * \<bar>p - q\<bar> \<le> 4095 * 4095" using assms by (intro mult_mono) simp_all
  then have sq: "(p - q) ^ 2 \<le> 4095 * 4095" by (simp add: power2_eq_square abs_mult [symmetric])
  show nonneg: "0 \<le> (p - q) ^ 2 / ?d" using d_lo by simp
  have "(p - q) ^ 2 / ?d \<le> (p - q) ^ 2 / (1 / 3)"
    using d_lo by (intro divide_left_mono) simp_all
  with sq show hi: "(p - q) ^ 2 / ?d \<le> 2 ^ 26" by simp
  from nonneg hi have "\<bar>(p - q) ^ 2 / ?d\<bar> \<le> 2 ^ 100" by simp
  then have quot: "overflow ((p - q) ^ 2 / ?d) = Finite ((p - q) ^ 2 / ?d)"
    by (rule overflow_finite)
  have nz: "p \<noteq> 0" "q \<noteq> 0" "ln ?a \<noteq> 0" using assms ln_lo by simp_all
  have lg: "Math_log (Finite ?a) = Finite (ln ?a)" using a(1) by simp
  have mul: "number_mul (Finite (p * q)) (Finite (ln ?a)) = Finite ?d" using den by simp
  have dv: "number_div (Finite ((p - q) ^ 2)) (Finite ?d) = Finite ((p - q) ^ 2 / ?d)"
    using quot nz by simp
  have cond: "\<not> (Finite (p * q) = Finite 0 \<or> number_le (Finite ?a) (Finite 1))"
    using nz a(1) by simp
  show "fingerprint (Finite p) (Finite q) = Finite ((p - q) ^ 2 / ?d)"
    unfolding fingerprint_def Let_def fingerprint_parts [OF nn(1) assms(2) nn(2) assms(4)]
      lg mul dv
    using cond by simp
qed

lemma lambda_value_in_range:
  fixes p q :: real
  assumes "1 \<le> p" "1 \<le> q" "3 \<le> p + q"
  shows "lambda_value p q = (p - q) ^ 2 / (p * q * ln ((p + q) / 2))"
  using assms by (simp add: lambda_value_def)

text \<open>
  Claim C7, amended.  For integers \<open>p\<close> and \<open>q\<close> from 0 to 4095 (the range of a window
  integer and of its factors) the fingerprint is exactly 0 when \<open>p * q = 0\<close> or
  \<open>(p + q) / 2 \<le> 1\<close>, and otherwise the finite number
  \<open>(p - q)\<^sup>2 / ((p * q) * ln ((p + q) / 2))\<close>; for positive \<open>p\<close> and \<open>q\<close> it is finite and never
  negative.
\<close>

theorem fingerprint_spec:
  fixes p q :: int
  assumes "0 \<le> p" "p \<le> 4095" "0 \<le> q" "q \<le> 4095"
  shows "(p * q = 0 \<or> (real_of_int p + real_of_int q) / 2 \<le> 1 \<longrightarrow>
           fingerprint (Finite (real_of_int p)) (Finite (real_of_int q)) = Finite 0)
       \<and> (\<not> (p * q = 0 \<or> (real_of_int p + real_of_int q) / 2 \<le> 1) \<longrightarrow>
           fingerprint (Finite (real_of_int p)) (Finite (real_of_int q)) =
             Finite ((real_of_int p - real_of_int q) ^ 2
               / (real_of_int (p * q) * ln ((real_of_int p + real_of_int q) / 2))))
       \<and> (0 < p \<and> 0 < q \<longrightarrow>
           (\<exists>r. fingerprint (Finite (real_of_int p)) (Finite (real_of_int q)) = Finite r
                \<and> 0 \<le> r))"
proof -
  have r: "0 \<le> real_of_int p" "real_of_int p \<le> 4095" "0 \<le> real_of_int q" "real_of_int q \<le> 4095"
    using assms by simp_all
  have zero: "fingerprint (Finite (real_of_int p)) (Finite (real_of_int q)) = Finite 0"
    if "p * q = 0 \<or> (real_of_int p + real_of_int q) / 2 \<le> 1"
  proof -
    from that have "real_of_int p * real_of_int q = 0 \<or> (real_of_int p + real_of_int q) / 2 \<le> 1"
      by auto
    then show ?thesis by (rule fingerprint_degenerate [OF r])
  qed
  have formula: "fingerprint (Finite (real_of_int p)) (Finite (real_of_int q)) =
      Finite ((real_of_int p - real_of_int q) ^ 2
        / (real_of_int (p * q) * ln ((real_of_int p + real_of_int q) / 2)))
    \<and> 0 \<le> (real_of_int p - real_of_int q) ^ 2
        / (real_of_int (p * q) * ln ((real_of_int p + real_of_int q) / 2))"
    if "\<not> (p * q = 0 \<or> (real_of_int p + real_of_int q) / 2 \<le> 1)"
  proof -
    from that assms have "1 \<le> p" "1 \<le> q" "2 < p + q" by (auto simp: field_simps)
    then have "1 \<le> real_of_int p" "1 \<le> real_of_int q" "3 \<le> real_of_int p + real_of_int q"
      by linarith+
    from fingerprint_in_range(1,2) [OF this(1) r(2) this(2) r(4) this(3)]
    show ?thesis by simp
  qed
  show ?thesis
  proof (intro conjI impI)
    assume "p * q = 0 \<or> (real_of_int p + real_of_int q) / 2 \<le> 1"
    then show "fingerprint (Finite (real_of_int p)) (Finite (real_of_int q)) = Finite 0"
      by (rule zero)
  next
    assume "\<not> (p * q = 0 \<or> (real_of_int p + real_of_int q) / 2 \<le> 1)"
    then show "fingerprint (Finite (real_of_int p)) (Finite (real_of_int q)) =
        Finite ((real_of_int p - real_of_int q) ^ 2
          / (real_of_int (p * q) * ln ((real_of_int p + real_of_int q) / 2)))"
      using formula by blast
  next
    assume "0 < p \<and> 0 < q"
    show "\<exists>r. fingerprint (Finite (real_of_int p)) (Finite (real_of_int q)) = Finite r \<and> 0 \<le> r"
    proof (cases "p * q = 0 \<or> (real_of_int p + real_of_int q) / 2 \<le> 1")
      case True
      from zero [OF True] show ?thesis by simp
    next
      case False
      from formula [OF False] show ?thesis by blast
    qed
  qed
qed

theorem fingerprint_spec_witness:
  "(0::int) \<le> 2 \<and> (2::int) \<le> 4095 \<and> (0::int) \<le> 3 \<and> (3::int) \<le> 4095
   \<and> fingerprint (Finite 2) (Finite 3) = Finite (1 / (6 * ln (5 / 2)))
   \<and> (\<exists>r. fingerprint (Finite 2) (Finite 3) = Finite r \<and> 0 \<le> r)
   \<and> fingerprint (Finite 0) (Finite 5) = Finite 0
   \<and> fingerprint (Finite 1) (Finite 1) = Finite 0"
  using fingerprint_spec [of 2 3] fingerprint_spec [of 0 5] fingerprint_spec [of 1 1]
  by simp

text \<open>
  Claim C7 as stated fails for large arguments.  \<open>2\<^sup>7\<^sup>0\<^sup>0\<close> and \<open>2\<^sup>7\<^sup>0\<^sup>1\<close> are non-negative
  integers (and doubles); their product and the square of their difference overflow to
  infinity, and the fingerprint is the quotient of two infinities, \<open>NaN\<close>, where the
  formula has a positive value.
\<close>

theorem fingerprint_spec_counterexample:
  "(0::int) \<le> 2 ^ 700 \<and> (0::int) \<le> 2 ^ 701
   \<and> (2::int) ^ 700 * 2 ^ 701 \<noteq> 0
   \<and> 1 < (real_of_int (2 ^ 700) + real_of_int (2 ^ 701)) / 2
   \<and> fingerprint (Finite (real_of_int (2 ^ 700))) (Finite (real_of_int (2 ^ 701))) = NaN
   \<and> NaN \<noteq> Finite ((real_of_int (2 ^ 700) - real_of_int (2 ^ 701)) ^ 2
        / (real_of_int (2 ^ 700 * 2 ^ 701)
            * ln ((real_of_int (2 ^ 700) + real_of_int (2 ^ 701)) / 2)))"
  by (simp add: fingerprint_def overflow_def overflow_threshold_def Let_def)

section \<open>The window loop\<close>

lemma substring_window:
  assumes "a + n \<le> length s"
  shows "substring s (int a) (int a + int n) = take n (drop a s)"
  using assms by (simp add: substring_def clamp_index_def Let_def min_def max_def nat_add_distrib)

lemma window_loop_unfold:
  "window_loop P step i t =
     (if i \<le> int (length P) - 6
      then window_loop P step (i + step) (case window_try P i t of Inl e \<Rightarrow> t | Inr t' \<Rightarrow> t')
      else Some t)"
  by (subst window_loop.simps) (simp split: sum.split)

lemma window_loop_returns:
  assumes "1 \<le> step"
  shows "\<exists>t'. window_loop P step i t = Some t'"
proof (induction "nat (int (length P) - 5 - i)" arbitrary: i t rule: less_induct)
  case less
  show ?case
  proof (cases "i \<le> int (length P) - 6")
    case False
    then show ?thesis by (subst window_loop_unfold) simp
  next
    case True
    with assms have "nat (int (length P) - 5 - (i + step)) < nat (int (length P) - 5 - i)"
      by simp
    from less [OF this] True show ?thesis by (subst window_loop_unfold) simp
  qed
qed

lemma bases_take_drop: "bases s \<Longrightarrow> bases (take n (drop i s))"
  unfolding bases_def list_all_iff using in_set_takeD in_set_dropD by fast

lemma codonToInt_window:
  assumes "bases P" "i + 3 \<le> length P"
  shows "codonToInt (take 3 (drop i P)) = Inr (positional_value (take 3 (drop i P)))"
proof -
  have "bases (take 3 (drop i P))" using assms(1) by (rule bases_take_drop)
  moreover have "length (take 3 (drop i P)) = 3" using assms(2) by simp
  ultimately have "valid_codon (take 3 (drop i P))" by (simp add: valid_codon_def bases_def)
  then show ?thesis by (rule codonToInt_fixed)
qed

lemma semiprimeFactors_range:
  assumes "semiprimeFactors n = Inr (p, q)" "n \<le> 4095"
  shows "2 \<le> p \<and> p \<le> 4095 \<and> 2 \<le> q \<and> q \<le> 4095"
proof -
  from assms(1) have run: "semiprime_loop 2 n = Inr (p, q)"
    by (simp add: semiprimeFactors_def split: if_splits)
  note f = semiprime_loop_Inr [OF run]
  have p2: "2 \<le> p" and sq: "p * p \<le> n" using f by simp_all
  have q: "q = n div p" using f by (elim conjE)
  have "isPrime q" using f by (elim conjE)
  then have q1: "1 < q" by (simp add: isPrime_iff is_prime_iff)
  have "p \<le> p * p" by (rule int_le_square)
  with sq assms(2) have p_hi: "p \<le> 4095" by linarith
  have "2 * 2 \<le> p * p" using p2 by (intro mult_mono) simp_all
  with sq have "0 < n" by linarith
  then have "n div p < n" using p2 by (intro int_div_less_self) simp_all
  with q assms(2) have "q \<le> 4095" by linarith
  with p2 p_hi q1 show ?thesis by simp
qed

lemma window_integer_range:
  assumes "bases P" "i + 6 \<le> length P"
  shows "window_integer P i \<le> 4095"
proof -
  have "bases (take 3 (drop i P))" "bases (take 3 (drop (i + 3) P))"
    using assms(1) by (rule bases_take_drop)+
  moreover have "length (take 3 (drop i P)) = 3" "length (take 3 (drop (i + 3) P)) = 3"
    using assms(2) by simp_all
  ultimately have "valid_codon (take 3 (drop i P))" "valid_codon (take 3 (drop (i + 3) P))"
    by (simp_all add: valid_codon_def bases_def)
  from positional_value_range [OF this(1)] positional_value_range [OF this(2)]
  show ?thesis unfolding window_integer_def by linarith
qed

text \<open>
  The score of a window lies between 0 and \<open>2\<^sup>2\<^sup>6\<close>, and adding it to a running total
  between 0 and \<open>2\<^sup>9\<^sup>9\<close> does not overflow.
\<close>

lemma window_score_range:
  assumes "bases P" "i + 6 \<le> length P"
  shows "0 \<le> window_score P i \<and> window_score P i \<le> 2 ^ 26
    \<and> (case semiprimeFactors (window_integer P i) of
          Inl e \<Rightarrow> True
        | Inr (p, q) \<Rightarrow> fingerprint (Finite (real_of_int p)) (Finite (real_of_int q))
            = Finite (window_score P i))"
proof (cases "semiprimeFactors (window_integer P i)")
  case (Inl e)
  then show ?thesis by (simp add: window_score_def)
next
  case (Inr pq)
  obtain p q where pq: "pq = (p, q)" by (cases pq)
  from Inr pq have sf: "semiprimeFactors (window_integer P i) = Inr (p, q)" by simp
  from semiprimeFactors_range [OF sf window_integer_range [OF assms]]
  have r: "1 \<le> real_of_int p" "real_of_int p \<le> 4095" "1 \<le> real_of_int q"
    "real_of_int q \<le> 4095" "3 \<le> real_of_int p + real_of_int q"
    by simp_all
  have ws: "window_score P i = (real_of_int p - real_of_int q) ^ 2
      / (real_of_int p * real_of_int q * ln ((real_of_int p + real_of_int q) / 2))"
    unfolding window_score_def sf using lambda_value_in_range [OF r(1,3,5)] by simp
  from fingerprint_in_range [OF r] show ?thesis unfolding ws sf by simp
qed

lemma window_try_window:
  assumes "bases P" "i + 6 \<le> length P" "0 \<le> t" "t \<le> 2 ^ 99"
  shows "(case window_try P (int i) (Finite t) of Inl e \<Rightarrow> Finite t | Inr t' \<Rightarrow> t')
    = Finite (t + window_score P i)"
proof -
  have s1: "substring P (int i) (int i + 3) = take 3 (drop i P)"
    using substring_window [of i 3 P] assms(2) by simp
  have s2: "substring P (int i + 3) (int i + 6) = take 3 (drop (i + 3) P)"
    using substring_window [of "i + 3" 3 P] assms(2) by (simp add: add.assoc)
  have c1: "codonToInt (take 3 (drop i P)) = Inr (positional_value (take 3 (drop i P)))"
    using assms by (intro codonToInt_window) auto
  have c2: "codonToInt (take 3 (drop (i + 3) P)) = Inr (positional_value (take 3 (drop (i + 3) P)))"
    using assms by (intro codonToInt_window) auto
  have len: "length (take 3 (drop i P)) = 3" "length (take 3 (drop (i + 3) P)) = 3"
    using assms(2) by simp_all
  note w = window_score_range [OF assms(1,2)]
  have "\<bar>t + window_score P i\<bar> \<le> 2 ^ 100" using w assms(3,4) by simp
  then have sum: "overflow (t + window_score P i) = Finite (t + window_score P i)"
    by (rule overflow_finite)
  have body: "window_try P (int i) (Finite t) =
      (case semiprimeFactors (window_integer P i) of
         Inl e \<Rightarrow> Inl e
       | Inr (p, q) \<Rightarrow>
           Inr (number_add (Finite t)
                  (fingerprint (Finite (real_of_int p)) (Finite (real_of_int q)))))"
    unfolding window_try_def Let_def s1 s2 c1 c2 window_integer_def using len by simp
  show ?thesis
  proof (cases "semiprimeFactors (window_integer P i)")
    case (Inl e)
    then show ?thesis unfolding body by (simp add: window_score_def)
  next
    case (Inr pq)
    obtain p q where pq: "pq = (p, q)" by (cases pq)
    from Inr pq have sf: "semiprimeFactors (window_integer P i) = Inr (p, q)" by simp
    from w have "fingerprint (Finite (real_of_int p)) (Finite (real_of_int q))
        = Finite (window_score P i)"
      unfolding sf by simp
    then show ?thesis unfolding body sf using sum by simp
  qed
qed

lemma window_loop_sum:
  assumes "bases P" "5 \<le> length P"
  shows "i \<le> length P - 5 \<Longrightarrow> 0 \<le> t \<Longrightarrow> t + real (length P - 5 - i) * 2 ^ 26 \<le> 2 ^ 99 \<Longrightarrow>
    window_loop P 1 (int i) (Finite t)
      = Some (Finite (t + sum_list (map (window_score P) [i..<length P - 5])))"
proof (induction "length P - 5 - i" arbitrary: i t)
  case 0
  then have i: "i = length P - 5" by simp
  then have "\<not> int i \<le> int (length P) - 6" using assms(2) by simp
  then show ?case by (subst window_loop_unfold) (simp add: i)
next
  case (Suc k)
  then have lt: "i < length P - 5" by simp
  then have cond: "int i \<le> int (length P) - 6" by simp
  have fits: "i + 6 \<le> length P" using lt by simp
  have k: "k = length P - 5 - Suc i" using Suc.hyps(2) by simp
  have room: "t + (real k + 1) * 2 ^ 26 \<le> 2 ^ 99"
    using Suc.prems(3) Suc.hyps(2) [symmetric] by simp
  have "0 \<le> real k * 2 ^ 26" by simp
  with room have t_hi: "t \<le> 2 ^ 99" by (simp add: algebra_simps)
  note w = window_score_range [OF assms(1) fits]
  have nonneg: "0 \<le> t + window_score P i" using w Suc.prems(2) by simp
  have room': "t + window_score P i + real (length P - 5 - Suc i) * 2 ^ 26 \<le> 2 ^ 99"
    using room w unfolding k [symmetric] by (simp add: algebra_simps)
  have step: "window_loop P 1 (int i) (Finite t)
      = window_loop P 1 (int (Suc i)) (Finite (t + window_score P i))"
    using cond window_try_window [OF assms(1) fits Suc.prems(2) t_hi]
    by (subst window_loop_unfold) (simp add: add.commute)
  have "[i..<length P - 5] = i # [Suc i..<length P - 5]" using lt by (simp add: upt_rec)
  with Suc.hyps(1) [OF k _ nonneg room'] lt step show ?case by simp
qed

text \<open>
  With any step of at least 1 the loop over a protospacer of bases returns a finite total
  that is not negative: every window adds a score between 0 and \<open>2\<^sup>2\<^sup>6\<close>, and there are
  fewer windows than symbols.
\<close>

lemma window_loop_finite:
  assumes "1 \<le> step" "bases P"
  shows "0 \<le> i \<Longrightarrow> 0 \<le> t \<Longrightarrow> t + real (nat (int (length P) - 5 - i)) * 2 ^ 26 \<le> 2 ^ 99 \<Longrightarrow>
    \<exists>r. window_loop P step i (Finite t) = Some (Finite r) \<and> 0 \<le> r"
proof (induction "nat (int (length P) - 5 - i)" arbitrary: i t rule: less_induct)
  case less
  show ?case
  proof (cases "i \<le> int (length P) - 6")
    case False
    then show ?thesis using less.prems(2) by (subst window_loop_unfold) simp
  next
    case True
    define j where "j = nat i"
    have i: "i = int j" using less.prems(1) by (simp add: j_def)
    have fits: "j + 6 \<le> length P" using True i by simp
    define n where "n = nat (int (length P) - 5 - i)"
    define n' where "n' = nat (int (length P) - 5 - (i + step))"
    have dec: "n' < n" using True assms(1) by (simp add: n_def n'_def)
    then have "real n' + 1 \<le> real n" by simp
    then have "(real n' + 1) * 2 ^ 26 \<le> real n * 2 ^ 26" by (intro mult_right_mono) simp_all
    with less.prems(3) have room: "t + (real n' + 1) * 2 ^ 26 \<le> 2 ^ 99"
      unfolding n_def by linarith
    have "0 \<le> real n' * 2 ^ 26" by simp
    with room have t_hi: "t \<le> 2 ^ 99" by (simp add: algebra_simps)
    note w = window_score_range [OF assms(2) fits]
    have nonneg: "0 \<le> t + window_score P j" using w less.prems(2) by simp
    have room': "t + window_score P j + real n' * 2 ^ 26 \<le> 2 ^ 99"
      using room w by (simp add: algebra_simps)
    have next_i: "0 \<le> i + step" using less.prems(1) assms(1) by simp
    have step: "window_loop P step i (Finite t)
        = window_loop P step (i + step) (Finite (t + window_score P j))"
      using True window_try_window [OF assms(2) fits less.prems(2) t_hi]
      by (subst window_loop_unfold) (simp add: i)
    from less.hyps [OF dec [unfolded n_def n'_def] next_i nonneg room' [unfolded n'_def]]
    show ?thesis unfolding step .
  qed
qed

section \<open>The pre-checks of the scorer\<close>

lemma mem_ACGTN:
  "c \<in> set ''ACGTN'' \<longleftrightarrow>
     c = CHR ''A'' \<or> c = CHR ''C'' \<or> c = CHR ''G'' \<or> c = CHR ''T'' \<or> c = CHR ''N''"
  by auto

lemma ACGTN_not_meta: "c \<in> set ''ACGTN'' \<Longrightarrow> c \<notin> set metachars"
  unfolding mem_ACGTN by (elim disjE) (simp_all add: metachars_def)

lemma parse_regex_literals:
  "list_all (\<lambda>c. c \<notin> set metachars) u \<Longrightarrow> parse_regex u = Some (map Lit u)"
proof (induction u)
  case Nil
  show ?case by simp
next
  case (Cons c cs)
  then have nm: "c \<notin> set metachars" and rest: "parse_regex cs = Some (map Lit cs)" by simp_all
  from nm have "c \<noteq> CHR ''[''" by (auto simp: metachars_def)
  with nm rest show ?case by simp
qed

lemma parse_regex_class:
  "parse_regex (''[ACGT]'' @ cs) = map_option (\<lambda>r. Bases # r) (parse_regex cs)"
  by simp

lemma parse_regex_replace_first:
  "list_all (\<lambda>c. c \<notin> set metachars) u \<Longrightarrow>
   parse_regex (replace_first (CHR ''N'') ''[ACGT]'' u) = Some (scorer_items u)"
proof (induction u)
  case Nil
  show ?case by simp
next
  case (Cons c cs)
  then have nm: "c \<notin> set metachars" and tl: "list_all (\<lambda>c. c \<notin> set metachars) cs" by simp_all
  show ?case
  proof (cases "c = CHR ''N''")
    case True
    have "parse_regex (replace_first (CHR ''N'') ''[ACGT]'' (c # cs)) = parse_regex (''[ACGT]'' @ cs)"
      using True by simp
    also have "\<dots> = Some (Bases # map Lit cs)"
      unfolding parse_regex_class by (simp add: parse_regex_literals [OF tl])
    finally show ?thesis using True by simp
  next
    case False
    from nm have "c \<noteq> CHR ''[''" by (auto simp: metachars_def)
    with False nm Cons.IH [OF tl] show ?thesis by simp
  qed
qed

lemma scorer_pamRegex_motif:
  assumes "motif_pattern (toUpperCase pam)"
  shows "scorer_pamRegex pam = Some (scorer_items (toUpperCase pam))"
proof -
  have "list_all (\<lambda>c. c \<notin> set metachars) (toUpperCase pam)"
    using assms unfolding motif_pattern_def list_all_iff using ACGTN_not_meta by blast
  then show ?thesis unfolding scorer_pamRegex_def by (rule parse_regex_replace_first)
qed

lemma analyze_short:
  "length seq < 23 \<Longrightarrow> analyzeSequenceForScore seq step pam = Returns (Finite 0)"
  by (simp add: analyzeSequenceForScore_def)

lemma analyze_rejected:
  assumes "scorer_pamRegex pam = Some rx" "\<not> scorer_accepts pam seq"
  shows "analyzeSequenceForScore seq step pam = Returns (Finite 0)"
  using assms
  by (auto simp: analyzeSequenceForScore_def scorer_accepts_def scorer_recheck_def Let_def)

lemma substring_prefix: "n \<le> length s \<Longrightarrow> substring s 0 (int n) = take n s"
  using substring_window [of 0 n s] by simp

lemma analyze_returns:
  assumes "scorer_pamRegex pam = Some rx" "1 \<le> step"
  shows "\<exists>r. analyzeSequenceForScore seq step pam = Returns (Finite r) \<and> 0 \<le> r"
proof (cases "length seq < 23")
  case True
  then show ?thesis by (simp add: analyzeSequenceForScore_def)
next
  case long: False
  define P where "P = toUpperCase (substring seq 0 20)"
  show ?thesis
  proof (cases "scorer_accepts pam seq \<and> test_ACGT_plus P")
    case False
    then have "analyzeSequenceForScore seq step pam = Returns (Finite 0)"
      using assms(1) long
      by (auto simp: analyzeSequenceForScore_def scorer_accepts_def scorer_recheck_def
          Let_def P_def)
    then show ?thesis by simp
  next
    case True
    then have chk: "length (toUpperCase (substring seq 20 23)) = 3
         \<and> test_anchored rx (toUpperCase (substring seq 20 23))"
      using assms(1) by (simp add: scorer_accepts_def scorer_recheck_def)
    from True have plus: "test_ACGT_plus P" by simp
    then have bP: "bases P" by (simp add: test_ACGT_plus_def bases_def)
    have "substring seq 0 20 = take 20 seq" using substring_prefix [of 20 seq] long by simp
    then have lenP: "length P = 20" using long by (simp add: P_def)
    have "(0::real) + real (nat (int (length P) - 5 - 0)) * 2 ^ 26 \<le> 2 ^ 99"
      unfolding lenP by simp
    from window_loop_finite [OF assms(2) bP _ _ this]
    obtain r where r: "window_loop P step 0 (Finite 0) = Some (Finite r)" "0 \<le> r" by auto
    have "analyzeSequenceForScore seq step pam = Returns (Finite r)"
      unfolding analyzeSequenceForScore_def Let_def P_def [symmetric]
      using long assms(1) chk plus r(1) by simp
    with r(2) show ?thesis by blast
  qed
qed

text \<open>
  The two early returns.  For a PAM pattern over \<open>{A,C,G,T,N}\<close> (in either case), an input
  shorter than 23 symbols, or one whose symbols 21 to 23 are rejected by the test the
  scorer itself builds from the pattern, scores 0; nothing is thrown.
\<close>

lemma analyze_own_check_fails:
  assumes "motif_pattern (toUpperCase pam)"
    and "length seq < 23 \<or> \<not> scorer_accepts pam seq"
  shows "analyzeSequenceForScore seq step pam = Returns (Finite 0)"
  using assms(2) analyze_short analyze_rejected [OF scorer_pamRegex_motif [OF assms(1)]]
  by blast

text \<open>
  Claim C10.  \<open>analyzeSequenceForScore\<close> is total: for every input string, every step of
  at least 1 and every PAM pattern over \<open>{A,C,G,T,N}\<close> it returns a number, which is finite
  and not negative.  The window loop ends because the counter grows by the step, and every
  \<open>ValueError\<close> of a window is caught inside the loop.
\<close>

theorem analyzeSequenceForScore_total:
  assumes "motif_pattern (toUpperCase pam)" and "1 \<le> step"
  shows "\<exists>r. analyzeSequenceForScore seq step pam = Returns (Finite r) \<and> 0 \<le> r"
  using analyze_returns [OF scorer_pamRegex_motif [OF assms(1)] assms(2)] .

text \<open>
  The window sum.  When the scorer's own re-check accepts symbols 21 to 23, a 23-symbol
  input whose first 20 symbols are bases scores the sum, over the window offsets 0 to 14,
  of the fingerprint of the factor pair of the window integer, a window without a factor
  pair adding 0.
\<close>

lemma analyze_windows:
  assumes len: "length seq = 23"
    and up: "bases (toUpperCase (take 20 seq))"
    and ok: "scorer_accepts pam seq"
  shows "analyzeSequenceForScore seq 1 pam =
    Returns (Finite (sum_list (map (window_score (toUpperCase (take 20 seq))) [0..<15])))"
proof -
  define P where "P = toUpperCase (take 20 seq)"
  from ok obtain rx where rx: "scorer_pamRegex pam = Some rx"
    and chk: "length (toUpperCase (substring seq 20 23)) = 3
       \<and> test_anchored rx (toUpperCase (substring seq 20 23))"
    by (auto simp: scorer_accepts_def scorer_recheck_def split: option.splits)
  have sub: "substring seq 0 20 = take 20 seq"
    using substring_prefix [of 20 seq] len by simp
  have lenP: "length P = 20" using len by (simp add: P_def)
  have "P \<noteq> []" using lenP by auto
  then have plus: "test_ACGT_plus P"
    using up unfolding test_ACGT_plus_def bases_def P_def by simp
  have "window_loop P 1 (int 0) (Finite 0)
      = Some (Finite (0 + sum_list (map (window_score P) [0..<length P - 5])))"
    using up lenP by (intro window_loop_sum) (simp_all add: P_def)
  then have loop: "window_loop P 1 0 (Finite 0)
      = Some (Finite (sum_list (map (window_score P) [0..<15])))"
    using lenP by simp
  show ?thesis
    unfolding analyzeSequenceForScore_def Let_def sub P_def [symmetric]
    using len rx chk plus loop by simp
qed

section \<open>Evaluating the scorer\<close>

text \<open>Unfolding rules for evaluating the definitions on concrete inputs.\<close>

lemmas eval_simps = toUpperCase_def toUpperChar_def substring_def clamp_index_def
  scorer_pamRegex_def scorer_accepts_def scorer_recheck_def test_anchored_def item_matches_def
  metachars_def
  motif_pattern_def motif_matches_def bases_def

lemma semiprimeFactors_small:
  "semiprimeFactors 0 = Inl InputTooSmall" "semiprimeFactors 1 = Inl InputTooSmall"
  "semiprimeFactors 6 = Inr (2, 3)"
  by (simp_all add: semiprimeFactors_def semiprime_loop.simps isPrime_def)

lemma window_sum_example:
  "sum_list (map (window_score ''AAAAAAAAAAAAAAAAAACG'') [0..<15]) = 1 / (6 * ln (5 / 2))"
proof -
  have idx: "[0..<15] = [0, 1, 2, 3, 4, 5, 6, 7, 8, 9, 10, 11, 12, 13, 14 :: nat]"
    by code_simp
  have wi: "map (window_integer ''AAAAAAAAAAAAAAAAAACG'')
        [0, 1, 2, 3, 4, 5, 6, 7, 8, 9, 10, 11, 12, 13, 14]
      = [0, 0, 0, 0, 0, 0, 0, 0, 0, 0, 0, 0, 0, 1, 6]"
    by (simp add: window_integer_def positional_value_def base_value_def)
  have "map (window_score ''AAAAAAAAAAAAAAAAAACG'') [0..<15]
      = map (\<lambda>N. case semiprimeFactors N of
                     Inr (p, q) \<Rightarrow> lambda_value (real_of_int p) (real_of_int q)
                   | Inl e \<Rightarrow> 0)
          (map (window_integer ''AAAAAAAAAAAAAAAAAACG'') [0..<15])"
    by (simp add: window_score_def)
  also have "\<dots> = [0, 0, 0, 0, 0, 0, 0, 0, 0, 0, 0, 0, 0, 0, lambda_value 2 3]"
    unfolding idx wi by (simp add: semiprimeFactors_small)
  finally show ?thesis by (simp add: lambda_value_def)
qed

lemma analyze_windows_example:
  "analyzeSequenceForScore ''AAAAAAAAAAAAAAAAAACGcGG'' 1 ''ngg''
     = Returns (Finite (1 / (6 * ln (5 / 2))))"
proof -
  have "scorer_accepts ''ngg'' ''AAAAAAAAAAAAAAAAAACGcGG''" by (simp add: eval_simps)
  then show ?thesis
    using analyze_windows [of "''AAAAAAAAAAAAAAAAAACGcGG''" "''ngg''"] window_sum_example
    by (simp add: toUpperCase_def toUpperChar_def bases_def)
qed

text \<open>
  Claim C1 asks for the window sum whenever symbols 21 to 23 match the motif pattern.
  With the pattern \<open>NNG\<close> the symbols \<open>CGG\<close> match it (both wildcards stand for a base), the
  window at offset 14 of the upstream region has the integer 6 = 2 * 3, so the sum is
  \<open>1 / (6 * ln (5 / 2))\<close>, which is positive; the scorer returns 0, because its re-check
  turns only the first \<open>N\<close> into a wildcard and looks for a literal \<open>N\<close> at the second
  position.
\<close>

theorem analyzeSequenceForScore_second_wildcard:
  "length ''AAAAAAAAAAAAAAAAAACGCGG'' = 23
   \<and> bases (take 20 ''AAAAAAAAAAAAAAAAAACGCGG'')
   \<and> motif_matches ''NNG'' (drop 20 ''AAAAAAAAAAAAAAAAAACGCGG'')
   \<and> sum_list (map (window_score (take 20 ''AAAAAAAAAAAAAAAAAACGCGG'')) [0..<15])
       = 1 / (6 * ln (5 / 2))
   \<and> 0 < 1 / (6 * ln (5 / 2) :: real)
   \<and> analyzeSequenceForScore ''AAAAAAAAAAAAAAAAAACGCGG'' 1 ''NNG'' = Returns (Finite 0)"
proof -
  have "analyzeSequenceForScore ''AAAAAAAAAAAAAAAAAACGCGG'' 1 ''NNG'' = Returns (Finite 0)"
    by (simp add: analyzeSequenceForScore_def eval_simps)
  moreover have "motif_matches ''NNG'' (drop 20 ''AAAAAAAAAAAAAAAAAACGCGG'')"
    by (simp add: eval_simps)
  moreover have "bases (take 20 ''AAAAAAAAAAAAAAAAAACGCGG'')"
    by (simp add: bases_def)
  moreover have "0 < 1 / (6 * ln (5 / 2) :: real)" by simp
  ultimately show ?thesis using window_sum_example by simp
qed

text \<open>
  Claim C6 asks for the score 0 whenever symbols 21 to 23 fail the re-check against the
  motif pattern.  With the pattern \<open>NNG\<close> the symbols \<open>ANG\<close> do not match it (\<open>N\<close> is not a
  base), yet the scorer lets them pass, because its test turns only the first \<open>N\<close> into a
  wildcard and takes the second one literally; it goes on to the windows and returns the
  window sum \<open>1 / (6 * ln (5 / 2))\<close>, which is not 0.
\<close>

theorem analyzeSequenceForScore_literal_wildcard:
  "length ''AAAAAAAAAAAAAAAAAACGANG'' = 23
   \<and> motif_pattern ''NNG''
   \<and> \<not> motif_matches ''NNG'' (drop 20 ''AAAAAAAAAAAAAAAAAACGANG'')
   \<and> analyzeSequenceForScore ''AAAAAAAAAAAAAAAAAACGANG'' 1 ''NNG''
       = Returns (Finite (1 / (6 * ln (5 / 2))))
   \<and> 1 / (6 * ln (5 / 2)) \<noteq> (0::real)"
proof -
  have "scorer_accepts ''NNG'' ''AAAAAAAAAAAAAAAAAACGANG''" by (simp add: eval_simps)
  then have "analyzeSequenceForScore ''AAAAAAAAAAAAAAAAAACGANG'' 1 ''NNG''
      = Returns (Finite (1 / (6 * ln (5 / 2))))"
    using analyze_windows [of "''AAAAAAAAAAAAAAAAAACGANG''" "''NNG''"] window_sum_example
    by (simp add: toUpperCase_def toUpperChar_def bases_def)
  moreover have "\<not> motif_matches ''NNG'' (drop 20 ''AAAAAAAAAAAAAAAAAACGANG'')"
    by (simp add: eval_simps)
  moreover have "motif_pattern ''NNG''" by (simp add: eval_simps)
  moreover have "1 / (6 * ln (5 / 2)) \<noteq> (0::real)" by simp
  ultimately show ?thesis by simp
qed

theorem analyzeSequenceForScore_total_witness:
  "motif_pattern (toUpperCase ''ngg'') \<and> (1::int) \<le> 2
   \<and> (\<exists>r. analyzeSequenceForScore ''acgtacgtacgtacgtacgtagg'' 2 ''ngg'' = Returns (Finite r)
          \<and> 0 \<le> r)
   \<and> (\<exists>r. analyzeSequenceForScore ''not a sequence at all, but long enough!'' 2 ''ngg''
            = Returns (Finite r) \<and> 0 \<le> r)"
  using analyzeSequenceForScore_total [of "''ngg''" 2 "''acgtacgtacgtacgtacgtagg''"]
    analyzeSequenceForScore_total [of "''ngg''" 2 "''not a sequence at all, but long enough!''"]
  by (simp add: eval_simps)

section \<open>The scan loop\<close>

lemma match_here_length: "match_here rx t \<Longrightarrow> length rx \<le> length t"
  by (induction rx t rule: match_here.induct) auto

lemma search_from_Some:
  "search_from rx t k = Some m \<Longrightarrow>
   \<exists>d. m = k + d \<and> d \<le> length t \<and> match_here rx (drop d t)
       \<and> (\<forall>e<d. \<not> match_here rx (drop e t))"
proof (induction t arbitrary: k)
  case Nil
  then show ?case by (auto split: if_splits)
next
  case (Cons c t)
  show ?case
  proof (cases "match_here rx (c # t)")
    case True
    with Cons.prems have "m = k" by simp
    with True show ?thesis by (intro exI [of _ 0]) simp
  next
    case False
    with Cons.prems have "search_from rx t (Suc k) = Some m" by simp
    from Cons.IH [OF this] obtain d where d: "m = Suc k + d" "d \<le> length t"
      "match_here rx (drop d t)" "\<forall>e<d. \<not> match_here rx (drop e t)" by blast
    have "\<not> match_here rx (drop e (c # t))" if "e < Suc d" for e
    proof (cases e)
      case 0
      with False show ?thesis by simp
    next
      case (Suc e')
      with that d(4) show ?thesis by simp
    qed
    with d(1,2,3) show ?thesis by (intro exI [of _ "Suc d"]) simp
  qed
qed

lemma search_from_None:
  "search_from rx t k = None \<Longrightarrow> e \<le> length t \<Longrightarrow> \<not> match_here rx (drop e t)"
proof (induction t arbitrary: k e)
  case Nil
  then show ?case by (auto split: if_splits)
next
  case (Cons c t)
  from Cons.prems(1) have here: "\<not> match_here rx (c # t)"
    and rest: "search_from rx t (Suc k) = None" by (auto split: if_splits)
  show ?case
  proof (cases e)
    case 0
    with here show ?thesis by simp
  next
    case (Suc e')
    with Cons.prems(2) Cons.IH [OF rest, of e'] show ?thesis by simp
  qed
qed

lemma regex_exec_Some:
  assumes "regex_exec rx s li = Some k"
  shows "li \<le> k" "k \<le> length s" "match_here rx (drop k s)"
    "\<And>j. li \<le> j \<Longrightarrow> j < k \<Longrightarrow> \<not> match_here rx (drop j s)"
proof -
  from assms have li: "li \<le> length s" and sf: "search_from rx (drop li s) li = Some k"
    by (auto simp: regex_exec_def split: if_splits)
  from search_from_Some [OF sf] obtain d where d: "k = li + d" "d \<le> length (drop li s)"
    "match_here rx (drop d (drop li s))" "\<forall>e<d. \<not> match_here rx (drop e (drop li s))"
    by blast
  show "li \<le> k" using d(1) by simp
  show "k \<le> length s" using d(1,2) li by simp
  show "match_here rx (drop k s)" using d(1,3) by (simp add: add.commute)
  show "\<not> match_here rx (drop j s)" if "li \<le> j" "j < k" for j
  proof -
    from that d(1) have "j - li < d" by simp
    with d(4) have "\<not> match_here rx (drop (j - li) (drop li s))" by blast
    with that(1) show ?thesis by simp
  qed
qed

lemma regex_exec_None:
  assumes "regex_exec rx s li = None" "li \<le> j" "j \<le> length s"
  shows "\<not> match_here rx (drop j s)"
proof -
  from assms have sf: "search_from rx (drop li s) li = None"
    by (auto simp: regex_exec_def split: if_splits)
  have "j - li \<le> length (drop li s)" using assms(2,3) by simp
  from search_from_None [OF sf this] assms(2) show ?thesis by simp
qed

lemma exec_loop_unfold:
  "exec_loop rx hdr s li acc =
     (case regex_exec rx s li of
        None \<Rightarrow> Some acc
      | Some k \<Rightarrow>
          exec_loop rx hdr s (k + length rx)
            (if 20 \<le> k then acc @ [loop_row rx hdr s k] else acc))"
  by (subst exec_loop.simps) (simp add: loop_row_def split: option.split)

lemma exec_loop_scan:
  assumes "rx \<noteq> []"
  shows "\<exists>os. leftmost_scan (\<lambda>j. match_here rx (drop j s)) (length rx) (length s) li os
    \<and> exec_loop rx hdr s li acc
        = Some (acc @ map (loop_row rx hdr s) (filter (\<lambda>k. 20 \<le> k) os))"
proof (induction "Suc (length s) - li" arbitrary: li acc rule: less_induct)
  case less
  show ?case
  proof (cases "regex_exec rx s li")
    case None
    have "list_all (\<lambda>j. \<not> match_here rx (drop j s)) [li..<Suc (length s)]"
      unfolding list_all_iff
    proof
      fix j assume "j \<in> set [li..<Suc (length s)]"
      then have "li \<le> j" "j \<le> length s" by (simp_all del: upt_Suc)
      with None show "\<not> match_here rx (drop j s)" by (rule regex_exec_None)
    qed
    then have "leftmost_scan (\<lambda>j. match_here rx (drop j s)) (length rx) (length s) li []"
      by simp
    moreover have "exec_loop rx hdr s li acc = Some (acc @ map (loop_row rx hdr s) (filter (\<lambda>k. 20 \<le> k) []))"
      using None by (subst exec_loop_unfold) simp
    ultimately show ?thesis by blast
  next
    case (Some k)
    note found = regex_exec_Some [OF Some]
    have pos: "0 < length rx" using assms by simp
    have "Suc (length s) - (k + length rx) < Suc (length s) - li"
      using found(1,2) pos by linarith
    from less [OF this, of "if 20 \<le> k then acc @ [loop_row rx hdr s k] else acc"]
    obtain os where os: "leftmost_scan (\<lambda>j. match_here rx (drop j s)) (length rx) (length s)
        (k + length rx) os"
      and run: "exec_loop rx hdr s (k + length rx)
          (if 20 \<le> k then acc @ [loop_row rx hdr s k] else acc)
        = Some ((if 20 \<le> k then acc @ [loop_row rx hdr s k] else acc)
            @ map (loop_row rx hdr s) (filter (\<lambda>k. 20 \<le> k) os))"
      by blast
    have "list_all (\<lambda>j. \<not> match_here rx (drop j s)) [li..<k]"
      unfolding list_all_iff
    proof
      fix j assume "j \<in> set [li..<k]"
      then have "li \<le> j" "j < k" by simp_all
      then show "\<not> match_here rx (drop j s)" by (rule found(4))
    qed
    with found(1,2,3) os
    have "leftmost_scan (\<lambda>j. match_here rx (drop j s)) (length rx) (length s) li (k # os)"
      by simp
    moreover have "exec_loop rx hdr s li acc
        = Some (acc @ map (loop_row rx hdr s) (filter (\<lambda>k. 20 \<le> k) (k # os)))"
      using Some run by (subst exec_loop_unfold) simp
    ultimately show ?thesis by blast
  qed
qed

lemma leftmost_scan_bound: "leftmost_scan M L n start os \<Longrightarrow> k \<in> set os \<Longrightarrow> k \<le> n"
  by (induction os arbitrary: start) auto

text \<open>
  What \<open>leftmost_scan\<close> says about the offsets it lists: each of them satisfies \<open>M\<close>;
  every offset from the start on that satisfies \<open>M\<close> is listed or starts inside an earlier
  listed one; and listed offsets are at least \<open>L\<close> apart, in increasing order.
\<close>

lemma leftmost_scan_sound: "leftmost_scan M L n start os \<Longrightarrow> k \<in> set os \<Longrightarrow> start \<le> k \<and> M k"
proof (induction os arbitrary: start)
  case Nil
  then show ?case by simp
next
  case (Cons x os)
  show ?case
  proof (cases "k = x")
    case True
    with Cons.prems(1) show ?thesis by simp
  next
    case False
    with Cons.prems have "k \<in> set os" and "leftmost_scan M L n (x + L) os" by simp_all
    from Cons.IH [OF this(2) this(1)] Cons.prems(1) show ?thesis by simp
  qed
qed

lemma leftmost_scan_complete:
  "leftmost_scan M L n start os \<Longrightarrow> start \<le> j \<Longrightarrow> j \<le> n \<Longrightarrow> M j \<Longrightarrow>
   j \<in> set os \<or> (\<exists>k\<in>set os. k < j \<and> j < k + L)"
proof (induction os arbitrary: start)
  case Nil
  then have "\<not> M j" by (simp add: list_all_iff del: upt_Suc)
  with Nil.prems(4) show ?case by simp
next
  case (Cons x os)
  from Cons.prems(1) have x: "start \<le> x" "M x" and before: "list_all (\<lambda>j. \<not> M j) [start..<x]"
    and rest: "leftmost_scan M L n (x + L) os" by simp_all
  have "x \<le> j"
  proof (rule ccontr)
    assume "\<not> x \<le> j"
    with Cons.prems(2) before have "\<not> M j" by (simp add: list_all_iff)
    with Cons.prems(4) show False by simp
  qed
  then consider "j = x" | "x < j" "j < x + L" | "x + L \<le> j" by linarith
  then show ?case
  proof cases
    case 1
    then show ?thesis by simp
  next
    case 2
    then show ?thesis by auto
  next
    case 3
    from Cons.IH [OF rest 3 Cons.prems(3,4)] show ?thesis by auto
  qed
qed

lemma leftmost_scan_spaced:
  "leftmost_scan M L n start os \<Longrightarrow> i < j \<Longrightarrow> j < length os \<Longrightarrow> os ! i + L \<le> os ! j"
proof (induction os arbitrary: start i j)
  case Nil
  then show ?case by simp
next
  case (Cons x os)
  from Cons.prems(1) have rest: "leftmost_scan M L n (x + L) os" by simp
  from Cons.prems(2) obtain j' where j': "j = Suc j'" by (cases j) auto
  with Cons.prems(3) have jl: "j' < length os" by simp
  show ?case
  proof (cases i)
    case 0
    from leftmost_scan_sound [OF rest, of "os ! j'"] jl have "x + L \<le> os ! j'" by simp
    with 0 j' show ?thesis by simp
  next
    case (Suc i')
    with Cons.prems(2) j' have "i' < j'" by simp
    from Cons.IH [OF rest this jl] Suc j' show ?thesis by simp
  qed
qed

lemma loop_row_candidate:
  assumes "20 \<le> k" "k \<le> length s"
  shows "loop_row rx hdr s k = candidate_at hdr s (length rx) k"
proof -
  have "substring s (int (k - 20)) (int (k - 20) + int 20) = take 20 (drop (k - 20) s)"
    using assms by (intro substring_window) simp
  moreover have "int (k - 20) = int k - 20" using assms(1) by simp
  ultimately have "substring s (int k - 20) (int k) = take 20 (drop (k - 20) s)" by simp
  then show ?thesis by (simp add: loop_row_def candidate_at_def)
qed

section \<open>The scanner on motif patterns\<close>

lemma parse_regex_replace_all:
  "list_all (\<lambda>c. c \<notin> set metachars) u \<Longrightarrow>
   parse_regex (replace_all (CHR ''N'') ''[ACGT]'' u) = Some (scanner_items u)"
proof (induction u)
  case Nil
  show ?case by (simp add: replace_all_def scanner_items_def)
next
  case (Cons c cs)
  then have nm: "c \<notin> set metachars" and tl: "list_all (\<lambda>c. c \<notin> set metachars) cs" by simp_all
  have ih: "parse_regex (replace_all (CHR ''N'') ''[ACGT]'' cs) = Some (scanner_items cs)"
    using Cons.IH [OF tl] .
  show ?case
  proof (cases "c = CHR ''N''")
    case True
    have "replace_all (CHR ''N'') ''[ACGT]'' (c # cs)
        = ''[ACGT]'' @ replace_all (CHR ''N'') ''[ACGT]'' cs"
      using True by (simp add: replace_all_def)
    then show ?thesis
      unfolding parse_regex_class using ih True by (simp add: scanner_items_def)
  next
    case False
    from nm have "c \<noteq> CHR ''[''" by (auto simp: metachars_def)
    moreover have "replace_all (CHR ''N'') ''[ACGT]'' (c # cs)
        = c # replace_all (CHR ''N'') ''[ACGT]'' cs"
      using False by (simp add: replace_all_def)
    ultimately show ?thesis using nm ih False by (simp add: scanner_items_def)
  qed
qed

lemma motif_not_meta:
  "motif_pattern u \<Longrightarrow> list_all (\<lambda>c. c \<notin> set metachars) u"
  unfolding motif_pattern_def list_all_iff using ACGTN_not_meta by blast

lemma scanner_pamRegex_motif:
  assumes "list_all (\<lambda>c. c \<notin> set metachars) (toUpperCase pamPattern)"
  shows "scanner_pamRegex pamPattern = Some (scanner_items (toUpperCase pamPattern))"
  using assms unfolding scanner_pamRegex_def by (rule parse_regex_replace_all)

lemma match_here_scanner_items:
  "match_here (scanner_items u) t
     \<longleftrightarrow> length u \<le> length t \<and> motif_matches u (take (length u) t)"
proof (induction u arbitrary: t)
  case Nil
  show ?case by (simp add: scanner_items_def motif_matches_def)
next
  case (Cons c u)
  show ?case
  proof (cases t)
    case Nil
    then show ?thesis by (simp add: scanner_items_def)
  next
    case (Cons x t')
    have "match_here (scanner_items (c # u)) (x # t')
        \<longleftrightarrow> (if c = CHR ''N'' then x \<in> set ''ACGT'' else x = c)
            \<and> match_here (scanner_items u) t'"
      by (simp add: scanner_items_def item_matches_def)
    also have "\<dots> \<longleftrightarrow> (if c = CHR ''N'' then x \<in> set ''ACGT'' else x = c)
        \<and> length u \<le> length t' \<and> motif_matches u (take (length u) t')"
      using Cons.IH [of t'] by simp
    also have "\<dots> \<longleftrightarrow> length (c # u) \<le> length (x # t')
        \<and> motif_matches (c # u) (take (length (c # u)) (x # t'))"
      by (auto simp: motif_matches_def)
    finally show ?thesis using Cons by simp
  qed
qed

lemma scanner_match_motif_at:
  assumes "u \<noteq> []"
  shows "match_here (scanner_items u) (drop j s) = motif_at u s j"
proof -
  have "length u \<le> length s - j \<longleftrightarrow> j + length u \<le> length s"
    using assms by (cases u) auto
  then show ?thesis by (simp add: match_here_scanner_items motif_at_def)
qed

lemma first_invalid_None: "first_invalid s = None \<longleftrightarrow> bases s"
  unfolding first_invalid_def find_None_iff bases_def list_all_iff by blast

lemma indexOf_from_first:
  "i < length s \<Longrightarrow> s ! i = c \<Longrightarrow> (\<forall>j<i. s ! j \<noteq> c) \<Longrightarrow> indexOf_from s c k = int (k + i)"
proof (induction s arbitrary: i k)
  case Nil
  then show ?case by simp
next
  case (Cons x xs)
  show ?case
  proof (cases i)
    case 0
    with Cons.prems show ?thesis by simp
  next
    case (Suc i')
    with Cons.prems have ne: "x \<noteq> c" by auto
    have "indexOf_from xs c (Suc k) = int (Suc k + i')"
      using Cons.prems Suc by (intro Cons.IH) auto
    with ne Suc show ?thesis by simp
  qed
qed

lemma first_invalid_Some:
  assumes "first_invalid s = Some c"
  shows "\<exists>i<length s. s ! i = c \<and> s ! i \<notin> set ''ACGT'' \<and> (\<forall>j<i. s ! j \<in> set ''ACGT'')
    \<and> indexOf s c = int i"
proof -
  from assms obtain i where i: "i < length s" "s ! i \<notin> set ''ACGT''" "c = s ! i"
    "\<forall>j<i. \<not> s ! j \<notin> set ''ACGT''"
    unfolding first_invalid_def find_Some_iff by blast
  have "\<forall>j<i. s ! j \<noteq> c" using i(2,3,4) by metis
  with i(1,3) have "indexOf_from s c 0 = int (0 + i)" by (intro indexOf_from_first) auto
  with i show ?thesis by (auto simp: indexOf_def)
qed

lemma discover_scan:
  assumes ne: "pamPattern \<noteq> []"
    and rx: "scanner_pamRegex pamPattern = Some rx"
    and ok: "bases (toUpperCase (sequence first))"
    and loop: "exec_loop rx (header first) (toUpperCase (sequence first)) 0 [] = Some rows"
  shows "discoverGrnasFromFasta (Some (first # others)) pamPattern st =
    Returns (if rows = []
      then st\<lparr>loading := False, error := Some (NoCandidatesFound pamPattern), inputData := None\<rparr>
      else st\<lparr>loading := False, error := None, inputData := Some rows,
             discoveredGrnasCount := Some (length rows)\<rparr>)"
  using ne rx loop ok [folded first_invalid_None]
  by (simp add: discoverGrnasFromFasta_def Let_def)

text \<open>
  Claim C4, amended.  For a sequence over \<open>{A,C,G,T}\<close> and a non-empty motif pattern over
  \<open>{A,C,G,T,N}\<close> (both in either case), the scanner finds the matches of the scan that
  resumes after the end of each match: the first match at or after offset 0, then the
  first match at or after the end of the match before, and so on.  It emits, from left to
  right, one candidate for every offset found that is at least 20, with the 20 symbols
  before the match as upstream region, the matched symbols as PAM, and the offset minus 20
  as position; an offset found below 20 yields no candidate.  A match that starts inside
  an earlier found match is not found.  With no candidate the state carries the
  no-candidates message.
\<close>

theorem discoverGrnasFromFasta_leftmost_scan:
  assumes ne: "pamPattern \<noteq> []"
    and pat: "motif_pattern (toUpperCase pamPattern)"
    and ok: "bases (toUpperCase (sequence first))"
  shows "\<exists>os.
    leftmost_scan (motif_at (toUpperCase pamPattern) (toUpperCase (sequence first)))
      (length pamPattern) (length (sequence first)) 0 os
    \<and> discoverGrnasFromFasta (Some (first # others)) pamPattern st =
      Returns (if filter (\<lambda>k. 20 \<le> k) os = []
        then st\<lparr>loading := False, error := Some (NoCandidatesFound pamPattern),
               inputData := None\<rparr>
        else st\<lparr>loading := False, error := None,
               inputData := Some (map (candidate_at (header first) (toUpperCase (sequence first))
                                    (length pamPattern))
                                 (filter (\<lambda>k. 20 \<le> k) os)),
               discoveredGrnasCount := Some (length (filter (\<lambda>k. 20 \<le> k) os))\<rparr>)"
proof -
  let ?u = "toUpperCase pamPattern"
  let ?s = "toUpperCase (sequence first)"
  let ?rx = "scanner_items ?u"
  let ?big = "filter (\<lambda>k. 20 \<le> k)"
  have une: "?u \<noteq> []" using ne by (simp add: toUpperCase_def)
  have rx: "scanner_pamRegex pamPattern = Some ?rx"
    using motif_not_meta [OF pat] by (rule scanner_pamRegex_motif)
  have rxne: "?rx \<noteq> []" using une by (simp add: scanner_items_def)
  have lenrx: "length ?rx = length pamPattern"
    by (simp add: scanner_items_def)
  from exec_loop_scan [OF rxne, of ?s 0 "header first" "[]"]
  obtain os where scan: "leftmost_scan (\<lambda>j. match_here ?rx (drop j ?s)) (length ?rx) (length ?s) 0 os"
    and run: "exec_loop ?rx (header first) ?s 0 []
        = Some (map (loop_row ?rx (header first) ?s) (?big os))"
    by auto
  have M: "(\<lambda>j. match_here ?rx (drop j ?s)) = motif_at ?u ?s"
    using scanner_match_motif_at [OF une] by auto
  have scan': "leftmost_scan (motif_at ?u ?s) (length pamPattern) (length (sequence first)) 0 os"
    using scan unfolding M lenrx by simp
  have rows: "map (loop_row ?rx (header first) ?s) (?big os)
      = map (candidate_at (header first) ?s (length pamPattern)) (?big os)"
  proof (rule map_cong [OF refl])
    fix k assume "k \<in> set (?big os)"
    then have k: "20 \<le> k" "k \<in> set os" by simp_all
    with leftmost_scan_bound [OF scan] have "k \<le> length ?s" by blast
    with k(1) show "loop_row ?rx (header first) ?s k
        = candidate_at (header first) ?s (length pamPattern) k"
      using loop_row_candidate [of k ?s ?rx "header first"] lenrx by simp
  qed
  have "discoverGrnasFromFasta (Some (first # others)) pamPattern st =
    Returns (if map (candidate_at (header first) ?s (length pamPattern)) (?big os) = []
      then st\<lparr>loading := False, error := Some (NoCandidatesFound pamPattern), inputData := None\<rparr>
      else st\<lparr>loading := False, error := None,
             inputData := Some (map (candidate_at (header first) ?s (length pamPattern)) (?big os)),
             discoveredGrnasCount := Some (length (map (candidate_at (header first) ?s
                 (length pamPattern)) (?big os)))\<rparr>)"
    using run unfolding rows by (rule discover_scan [OF ne rx ok])
  then show ?thesis using scan' by (intro exI [of _ os]) simp
qed

lemmas scan_eval = discoverGrnasFromFasta_def scanner_pamRegex_def replace_all_def
  first_invalid_def exec_loop.simps regex_exec_def initial_state_def indexOf_def
  scanner_accepts_def motif_at_def candidate_at_def

text \<open>
  Claim C4 as stated fails.  In 20 \<open>A\<close> followed by \<open>AGGG\<close> the pattern \<open>NGG\<close> matches at
  offsets 20 and 21, both at least 20; the scanner emits the candidate of offset 20 only,
  because the search resumes at offset 23.
\<close>

theorem discoverGrnasFromFasta_overlap_counterexample:
  "discoverGrnasFromFasta
     (Some [\<lparr>header = ''s1'', sequence = ''AAAAAAAAAAAAAAAAAAAAAGGG''\<rparr>]) ''NGG'' initial_state
     = Returns (initial_state\<lparr>inputData :=
          Some [\<lparr>protospacer = ''AAAAAAAAAAAAAAAAAAAA'', PAM = ''AGG'', sequence_location = 0,
                 source_fasta = ''s1''\<rparr>],
          discoveredGrnasCount := Some 1\<rparr>)
   \<and> motif_at ''NGG'' ''AAAAAAAAAAAAAAAAAAAAAGGG'' 21
   \<and> (20::nat) \<le> 21"
  by (simp add: scan_eval eval_simps)

theorem discoverGrnasFromFasta_leftmost_scan_witness:
  "''NGG'' \<noteq> [] \<and> motif_pattern (toUpperCase ''NGG'')
   \<and> bases (toUpperCase (sequence \<lparr>header = ''s1'', sequence = ''AAAAAAAAAAAAAAAAAAAAAGGG''\<rparr>))
   \<and> leftmost_scan (motif_at ''NGG'' ''AAAAAAAAAAAAAAAAAAAAAGGG'') 3 24 0 [20]
   \<and> (\<exists>os.
        leftmost_scan
          (motif_at (toUpperCase ''NGG'')
             (toUpperCase (sequence \<lparr>header = ''s1'', sequence = ''AAAAAAAAAAAAAAAAAAAAAGGG''\<rparr>)))
          (length ''NGG'')
          (length (sequence \<lparr>header = ''s1'', sequence = ''AAAAAAAAAAAAAAAAAAAAAGGG''\<rparr>)) 0 os
      \<and> discoverGrnasFromFasta
          (Some [\<lparr>header = ''s1'', sequence = ''AAAAAAAAAAAAAAAAAAAAAGGG''\<rparr>]) ''NGG''
          initial_state =
        Returns (if filter (\<lambda>k. 20 \<le> k) os = []
          then initial_state\<lparr>loading := False, error := Some (NoCandidatesFound ''NGG''),
                 inputData := None\<rparr>
          else initial_state\<lparr>loading := False, error := None,
                 inputData :=
                   Some (map (candidate_at
                           (header \<lparr>header = ''s1'', sequence = ''AAAAAAAAAAAAAAAAAAAAAGGG''\<rparr>)
                           (toUpperCase
                              (sequence \<lparr>header = ''s1'', sequence = ''AAAAAAAAAAAAAAAAAAAAAGGG''\<rparr>))
                           (length ''NGG''))
                         (filter (\<lambda>k. 20 \<le> k) os)),
                 discoveredGrnasCount := Some (length (filter (\<lambda>k. 20 \<le> k) os))\<rparr>))"
proof -
  have n: "''NGG'' \<noteq> []" by simp
  have a: "motif_pattern (toUpperCase ''NGG'')" by (simp add: eval_simps)
  have b: "bases (toUpperCase (sequence \<lparr>header = ''s1'', sequence = ''AAAAAAAAAAAAAAAAAAAAAGGG''\<rparr>))"
    by (simp add: eval_simps)
  have c: "leftmost_scan (motif_at ''NGG'' ''AAAAAAAAAAAAAAAAAAAAAGGG'') 3 24 0 [20]"
    by code_simp
  note r = discoverGrnasFromFasta_leftmost_scan [OF n a b, of "[]" initial_state]
  show ?thesis by (rule conjI [OF n conjI [OF a conjI [OF b conjI [OF c r]]]])
qed

section \<open>Rejected sequences and patterns\<close>

text \<open>
  Claim C5, amended.  In the newer copy of the callback, called with a non-empty motif
  pattern: when the upper-cased sequence has a symbol outside \<open>{A,C,G,T}\<close>, discovery ends
  with the invalid-character message, which names the first such symbol and its zero-based
  position; the candidate list is cleared and the scan loop is not entered.
\<close>

theorem discoverGrnasFromFasta_invalid_symbol:
  assumes ne: "pamPattern \<noteq> []"
    and pat: "motif_pattern (toUpperCase pamPattern)"
    and bad: "\<not> bases (toUpperCase (sequence first))"
  shows "\<exists>i<length (sequence first).
      toUpperCase (sequence first) ! i \<notin> set ''ACGT''
    \<and> (\<forall>j<i. toUpperCase (sequence first) ! j \<in> set ''ACGT'')
    \<and> discoverGrnasFromFasta (Some (first # others)) pamPattern st =
        Returns (st\<lparr>loading := False,
                   error := Some (InvalidDnaCharacter (header first)
                                   (toUpperCase (sequence first) ! i) (int i)),
                   inputData := None\<rparr>)"
proof -
  let ?s = "toUpperCase (sequence first)"
  have rx: "scanner_pamRegex pamPattern = Some (scanner_items (toUpperCase pamPattern))"
    using motif_not_meta [OF pat] by (rule scanner_pamRegex_motif)
  from bad obtain c where c: "first_invalid ?s = Some c"
    using first_invalid_None [of ?s] by (cases "first_invalid ?s") auto
  from first_invalid_Some [OF c] obtain i where i: "i < length ?s" "?s ! i = c"
    "?s ! i \<notin> set ''ACGT''" "\<forall>j<i. ?s ! j \<in> set ''ACGT''" "indexOf ?s c = int i"
    by blast
  have "discoverGrnasFromFasta (Some (first # others)) pamPattern st =
      Returns (st\<lparr>loading := False,
                 error := Some (InvalidDnaCharacter (header first) (?s ! i) (int i)),
                 inputData := None\<rparr>)"
    using ne rx c i(2,5) by (simp add: discoverGrnasFromFasta_def Let_def)
  with i(1,3,4) show ?thesis by (intro exI [of _ i]) simp
qed

theorem discoverGrnasFromFasta_invalid_symbol_witness:
  "''NGG'' \<noteq> [] \<and> motif_pattern (toUpperCase ''NGG'')
   \<and> \<not> bases (toUpperCase (sequence \<lparr>header = ''s1'', sequence = ''acgtxacgt''\<rparr>))
   \<and> (\<exists>i<length (sequence \<lparr>header = ''s1'', sequence = ''acgtxacgt''\<rparr>).
        toUpperCase (sequence \<lparr>header = ''s1'', sequence = ''acgtxacgt''\<rparr>) ! i \<notin> set ''ACGT''
      \<and> discoverGrnasFromFasta (Some [\<lparr>header = ''s1'', sequence = ''acgtxacgt''\<rparr>]) ''NGG''
           initial_state =
          Returns (initial_state\<lparr>loading := False,
             error := Some (InvalidDnaCharacter ''s1''
                 (toUpperCase (sequence \<lparr>header = ''s1'', sequence = ''acgtxacgt''\<rparr>) ! i) (int i)),
             inputData := None\<rparr>))"
proof -
  have a: "motif_pattern (toUpperCase ''NGG'')" by (simp add: eval_simps)
  have b: "\<not> bases (toUpperCase (sequence \<lparr>header = ''s1'', sequence = ''acgtxacgt''\<rparr>))"
    by (simp add: eval_simps)
  from discoverGrnasFromFasta_invalid_symbol [OF _ a b, of "[]" initial_state]
  have "\<exists>i<length (sequence \<lparr>header = ''s1'', sequence = ''acgtxacgt''\<rparr>).
        toUpperCase (sequence \<lparr>header = ''s1'', sequence = ''acgtxacgt''\<rparr>) ! i \<notin> set ''ACGT''
      \<and> discoverGrnasFromFasta (Some [\<lparr>header = ''s1'', sequence = ''acgtxacgt''\<rparr>]) ''NGG''
           initial_state =
          Returns (initial_state\<lparr>loading := False,
             error := Some (InvalidDnaCharacter ''s1''
                 (toUpperCase (sequence \<lparr>header = ''s1'', sequence = ''acgtxacgt''\<rparr>) ! i) (int i)),
             inputData := None\<rparr>)"
    by fastforce
  with a b show ?thesis by simp
qed

text \<open>
  Claim C5 as stated fails in two ways.  With an empty pattern the callback returns before
  it looks at the sequence, so a sequence with the symbol \<open>X\<close> leaves the state without any
  error.  The older copy of the callback has no test for such symbols: it scans the
  sequence and emits a candidate whose upstream region contains \<open>X\<close>.
\<close>

theorem discoverGrnasFromFasta_invalid_symbol_counterexample:
  "\<not> bases (toUpperCase ''ACGTX'')
   \<and> discoverGrnasFromFasta (Some [\<lparr>header = ''s1'', sequence = ''ACGTX''\<rparr>]) [] initial_state
     = Returns initial_state
   \<and> error initial_state = None
   \<and> \<not> bases (toUpperCase ''XAAAAAAAAAAAAAAAAAAAAGG'')
   \<and> discoverGrnasFromFasta_older
        (Some [\<lparr>header = ''s1'', sequence = ''XAAAAAAAAAAAAAAAAAAAAGG''\<rparr>]) ''NGG'' initial_state
     = Returns (initial_state\<lparr>inputData :=
          Some [\<lparr>protospacer = ''XAAAAAAAAAAAAAAAAAAA'', PAM = ''AGG'', sequence_location = 0,
                 source_fasta = ''s1''\<rparr>],
          discoveredGrnasCount := Some 1\<rparr>)"
  by (simp add: discoverGrnasFromFasta_older_def scan_eval eval_simps)

lemma discover_invalid_symbol_example:
  "discoverGrnasFromFasta (Some [\<lparr>header = ''s1'', sequence = ''acgtxacgt''\<rparr>]) ''NGG''
     initial_state
   = Returns (initial_state\<lparr>error := Some (InvalidDnaCharacter ''s1'' (CHR ''X'') 4)\<rparr>)"
  by (simp add: scan_eval eval_simps)

lemma literal_never_matches:
  assumes "c \<in> set u" "c \<notin> set ''ACGTN''" "bases t"
  shows "\<not> match_here (scanner_items u) t"
proof
  assume "match_here (scanner_items u) t"
  then have len: "length u \<le> length t" and mm: "motif_matches u (take (length u) t)"
    by (simp_all add: match_here_scanner_items)
  from assms(1) obtain i where i: "i < length u" "u ! i = c" by (auto simp: in_set_conv_nth)
  from assms(2) have cN: "c \<noteq> CHR ''N''" by auto
  from mm i(1) have "if u ! i = CHR ''N'' then take (length u) t ! i \<in> set ''ACGT''
      else take (length u) t ! i = u ! i"
    unfolding motif_matches_def list_all2_conv_all_nth by blast
  with i cN have "t ! i = c" by simp
  moreover have "t ! i \<in> set ''ACGT''"
    using assms(3) i(1) len unfolding bases_def list_all_iff by simp
  ultimately have "c \<in> set ''ACGT''" by simp
  with assms(2) show False by auto
qed

lemma bases_drop: "bases s \<Longrightarrow> bases (drop j s)"
  unfolding bases_def list_all_iff using in_set_dropD by fast

lemma discover_literal_symbol:
  assumes ne: "pamPattern \<noteq> []"
    and lit: "list_all (\<lambda>c. c \<notin> set metachars) (toUpperCase pamPattern)"
    and bad: "\<not> motif_pattern (toUpperCase pamPattern)"
    and ok: "bases (toUpperCase (sequence first))"
  shows "discoverGrnasFromFasta (Some (first # others)) pamPattern st =
    Returns (st\<lparr>loading := False, error := Some (NoCandidatesFound pamPattern),
               inputData := None\<rparr>)"
proof -
  let ?u = "toUpperCase pamPattern"
  let ?s = "toUpperCase (sequence first)"
  have rx: "scanner_pamRegex pamPattern = Some (scanner_items ?u)"
    using lit by (rule scanner_pamRegex_motif)
  from bad obtain c where c: "c \<in> set ?u" "c \<notin> set ''ACGTN''"
    unfolding motif_pattern_def list_all_iff by blast
  have "regex_exec (scanner_items ?u) ?s 0 = None"
  proof (cases "regex_exec (scanner_items ?u) ?s 0")
    case (Some k)
    from regex_exec_Some(3) [OF Some] literal_never_matches [OF c bases_drop [OF ok]]
    show ?thesis by blast
  qed simp
  then have "exec_loop (scanner_items ?u) (header first) ?s 0 [] = Some []"
    by (subst exec_loop_unfold) simp
  from discover_scan [OF ne rx ok this] show ?thesis by simp
qed

lemma discover_empty_pattern:
  "discoverGrnasFromFasta fastaContent [] st = Returns (st\<lparr>inputData := None\<rparr>)"
  by (simp add: discoverGrnasFromFasta_def split: option.split list.split)

text \<open>
  Claim C9, amended.  With an empty motif pattern discovery returns at once: it clears the
  candidate list and reports no error.  With a non-empty pattern that holds a symbol
  outside \<open>{A,C,G,T,N}\<close> (and no regular-expression metacharacter) the symbol is matched
  literally, so on a sequence over \<open>{A,C,G,T}\<close> nothing matches and discovery ends with the
  no-candidates message.  The code has no Invalid-Pattern error.
\<close>

theorem discoverGrnasFromFasta_bad_pattern:
  "(pamPattern = [] \<longrightarrow>
      discoverGrnasFromFasta fastaContent pamPattern st = Returns (st\<lparr>inputData := None\<rparr>))
   \<and> (pamPattern \<noteq> [] \<and> list_all (\<lambda>c. c \<notin> set metachars) (toUpperCase pamPattern)
        \<and> \<not> motif_pattern (toUpperCase pamPattern) \<and> bases (toUpperCase (sequence first)) \<longrightarrow>
      discoverGrnasFromFasta (Some (first # others)) pamPattern st =
        Returns (st\<lparr>loading := False, error := Some (NoCandidatesFound pamPattern),
                   inputData := None\<rparr>))"
  using discover_empty_pattern discover_literal_symbol by blast

text \<open>
  Claim C9 as stated fails: the empty pattern leaves the state without any error, and the
  pattern \<open>NXG\<close> is searched for literally and ends in the no-candidates message.
\<close>

theorem discoverGrnasFromFasta_bad_pattern_counterexample:
  "discoverGrnasFromFasta (Some [\<lparr>header = ''s1'', sequence = ''ACGT''\<rparr>]) [] initial_state
     = Returns initial_state
   \<and> error initial_state = None
   \<and> discoverGrnasFromFasta
        (Some [\<lparr>header = ''s1'', sequence = ''AAAAAAAAAAAAAAAAAAAAAGG''\<rparr>]) ''NXG'' initial_state
     = Returns (initial_state\<lparr>error := Some (NoCandidatesFound ''NXG'')\<rparr>)"
  by (simp add: scan_eval eval_simps)

theorem discoverGrnasFromFasta_bad_pattern_witness:
  "discoverGrnasFromFasta (Some [\<lparr>header = ''s1'', sequence = ''ACGT''\<rparr>]) [] initial_state
     = Returns (initial_state\<lparr>inputData := None\<rparr>)
   \<and> ''NXG'' \<noteq> [] \<and> list_all (\<lambda>c. c \<notin> set metachars) (toUpperCase ''NXG'')
   \<and> \<not> motif_pattern (toUpperCase ''NXG'') \<and> bases (toUpperCase ''AAAAAAAAAAAAAAAAAAAAAGG'')
   \<and> discoverGrnasFromFasta
        (Some (\<lparr>header = ''s1'', sequence = ''AAAAAAAAAAAAAAAAAAAAAGG''\<rparr> # [])) ''NXG''
        initial_state
     = Returns (initial_state\<lparr>loading := False, error := Some (NoCandidatesFound ''NXG''),
                 inputData := None\<rparr>)"
  using discoverGrnasFromFasta_bad_pattern
      [of "[]" "Some [\<lparr>header = ''s1'', sequence = ''ACGT''\<rparr>]" initial_state]
    discoverGrnasFromFasta_bad_pattern
      [of "''NXG''" _ initial_state "\<lparr>header = ''s1'', sequence = ''AAAAAAAAAAAAAAAAAAAAAGG''\<rparr>" "[]"]
  by (simp add: eval_simps)

section \<open>The older copy of the scanner\<close>

text \<open>
  On a sequence over the alphabet the two copies do the same, so what is proved about the
  scan holds for both.
\<close>

lemma older_copy_agrees:
  assumes "bases (toUpperCase (sequence first))"
  shows "discoverGrnasFromFasta_older (Some (first # others)) pamPattern st
    = discoverGrnasFromFasta (Some (first # others)) pamPattern st"
proof -
  have "first_invalid (toUpperCase (sequence first)) = None"
    using assms by (simp add: first_invalid_None)
  then show ?thesis
    by (simp add: discoverGrnasFromFasta_older_def discoverGrnasFromFasta_def Let_def
        split: option.split)
qed

section \<open>The two matchers\<close>

lemma toUpperChar_motif: "c \<in> set ''ACGTN'' \<Longrightarrow> toUpperChar c = c"
  unfolding mem_ACGTN by (elim disjE) (simp_all add: toUpperChar_def)

lemma toUpperCase_motif: "motif_pattern u \<Longrightarrow> toUpperCase u = u"
  unfolding motif_pattern_def
  by (induction u) (simp_all add: toUpperCase_def toUpperChar_motif del: set_simps)

lemma search_from_here: "search_from rx t k = Some k \<longleftrightarrow> match_here rx t"
proof (cases t)
  case Nil
  then show ?thesis by simp
next
  case (Cons c t')
  have "search_from rx t' (Suc k) \<noteq> Some k"
  proof
    assume "search_from rx t' (Suc k) = Some k"
    from search_from_Some [OF this] show False by auto
  qed
  with Cons show ?thesis by simp
qed

text \<open>
  The scanner's matcher is wildcard matching for every motif pattern; the scorer's
  re-check is wildcard matching for patterns of length 3 with at most one \<open>N\<close>.
\<close>

lemma scanner_accepts_motif:
  assumes "motif_pattern u" "length t = length u"
  shows "scanner_accepts u t \<longleftrightarrow> motif_matches u t"
proof -
  have "scanner_pamRegex u = Some (scanner_items u)"
    using scanner_pamRegex_motif [of u] motif_not_meta [OF assms(1)]
    by (simp add: toUpperCase_motif [OF assms(1)])
  then have "scanner_accepts u t \<longleftrightarrow> match_here (scanner_items u) t"
    by (simp add: scanner_accepts_def regex_exec_def search_from_here)
  then show ?thesis using assms(2) by (simp add: match_here_scanner_items)
qed

lemma match_here_literals:
  "length t = length u \<and> match_here (map Lit u) t \<longleftrightarrow> t = u"
proof (induction u arbitrary: t)
  case Nil
  show ?case by simp
next
  case (Cons c u)
  show ?case
  proof (cases t)
    case Nil
    then show ?thesis by simp
  next
    case (Cons x t')
    then show ?thesis using Cons.IH [of t'] by (auto simp: item_matches_def)
  qed
qed

lemma motif_matches_literals:
  "CHR ''N'' \<notin> set u \<Longrightarrow> motif_matches u t \<longleftrightarrow> t = u"
proof (induction u arbitrary: t)
  case Nil
  show ?case by (simp add: motif_matches_def)
next
  case (Cons c u)
  then have c: "c \<noteq> CHR ''N''" and u: "CHR ''N'' \<notin> set u" by auto
  show ?case
  proof (cases t)
    case Nil
    then show ?thesis by (simp add: motif_matches_def)
  next
    case (Cons x t')
    have "motif_matches (c # u) (x # t') \<longleftrightarrow> x = c \<and> motif_matches u t'"
      using c by (auto simp: motif_matches_def)
    with Cons.IH [OF u, of t'] Cons show ?thesis by auto
  qed
qed

lemma length_scorer_items [simp]: "length (scorer_items u) = length u"
  by (induction u) simp_all

lemma scorer_items_single_wildcard:
  "count_list u (CHR ''N'') \<le> 1 \<Longrightarrow>
   length t = length u \<and> match_here (scorer_items u) t \<longleftrightarrow> motif_matches u t"
proof (induction u arbitrary: t)
  case Nil
  show ?case by (auto simp: motif_matches_def)
next
  case (Cons c u)
  show ?case
  proof (cases t)
    case Nil
    then show ?thesis by (simp add: motif_matches_def)
  next
    case t: (Cons x t')
    show ?thesis
    proof (cases "c = CHR ''N''")
      case True
      with Cons.prems have "count_list u (CHR ''N'') = 0" by simp
      then have noN: "CHR ''N'' \<notin> set u" by (simp add: count_list_0_iff)
      have "length t = length (c # u) \<and> match_here (scorer_items (c # u)) t
          \<longleftrightarrow> x \<in> set ''ACGT'' \<and> (length t' = length u \<and> match_here (map Lit u) t')"
        using True t by (auto simp: item_matches_def)
      also have "\<dots> \<longleftrightarrow> x \<in> set ''ACGT'' \<and> motif_matches u t'"
        unfolding match_here_literals motif_matches_literals [OF noN] ..
      also have "\<dots> \<longleftrightarrow> motif_matches (c # u) t"
        using True t by (auto simp: motif_matches_def)
      finally show ?thesis .
    next
      case False
      with Cons.prems have "count_list u (CHR ''N'') \<le> 1" by simp
      from Cons.IH [OF this, of t']
      have ih: "length t' = length u \<and> match_here (scorer_items u) t' \<longleftrightarrow> motif_matches u t'" .
      have "length t = length (c # u) \<and> match_here (scorer_items (c # u)) t
          \<longleftrightarrow> x = c \<and> (length t' = length u \<and> match_here (scorer_items u) t')"
        using False t by (auto simp: item_matches_def)
      also have "\<dots> \<longleftrightarrow> x = c \<and> motif_matches u t'" unfolding ih ..
      also have "\<dots> \<longleftrightarrow> motif_matches (c # u) t"
        using False t by (auto simp: motif_matches_def)
      finally show ?thesis .
    qed
  qed
qed

lemma scorer_recheck_single_wildcard:
  assumes "motif_pattern u" "length u = 3" "count_list u (CHR ''N'') \<le> 1"
  shows "scorer_recheck u t \<longleftrightarrow> motif_matches u t"
proof -
  have rx: "scorer_pamRegex u = Some (scorer_items u)"
    using scorer_pamRegex_motif [of u] assms(1) by (simp add: toUpperCase_motif [OF assms(1)])
  have "scorer_recheck u t \<longleftrightarrow> length t = length u \<and> match_here (scorer_items u) t"
    using assms(2) by (auto simp: scorer_recheck_def rx test_anchored_def)
  then show ?thesis using scorer_items_single_wildcard [OF assms(3)] by simp
qed

text \<open>
  Claim C8 says that the scorer's re-check and the scanner's matcher accept the same
  strings.  For the pattern \<open>NNG\<close> and the string \<open>ACG\<close> the scanner's matcher accepts, as
  wildcard matching does, and the scorer's re-check rejects: the scanner emits the
  candidate with PAM \<open>ACG\<close>, and the scorer, given that candidate and the same pattern,
  returns 0 at its re-check.  The scanner replaces every \<open>N\<close>, the scorer the first only.
\<close>

theorem matcher_mismatch_second_wildcard:
  "motif_pattern ''NNG'' \<and> bases ''ACG'' \<and> length ''ACG'' = length ''NNG''
   \<and> motif_matches ''NNG'' ''ACG''
   \<and> scanner_accepts ''NNG'' ''ACG''
   \<and> \<not> scorer_recheck ''NNG'' ''ACG''
   \<and> discoverGrnasFromFasta
        (Some [\<lparr>header = ''s1'', sequence = ''AAAAAAAAAAAAAAAAAACGACG''\<rparr>]) ''NNG'' initial_state
      = Returns (initial_state\<lparr>inputData :=
          Some [\<lparr>protospacer = ''AAAAAAAAAAAAAAAAAACG'', PAM = ''ACG'', sequence_location = 0,
                 source_fasta = ''s1''\<rparr>],
          discoveredGrnasCount := Some 1\<rparr>)
   \<and> analyzeSequenceForScore (''AAAAAAAAAAAAAAAAAACG'' @ ''ACG'') 1 ''NNG'' = Returns (Finite 0)"
  by (simp add: scan_eval eval_simps analyzeSequenceForScore_def)

end
